theory Spec2Isabelle
  imports Complex_Main "HOL-Library.Log_Nat"
begin

section \<open>JavaScript numbers\<close>

text \<open>
  Every number of \<^verbatim>\<open>src/App.jsx\<close> is a JavaScript Number, an IEEE-754 binary64 value.
  A finite value other than negative zero is kept as the rational it denotes, so
  \<open>Fin 0\<close> is the positive zero; negative zero, the two infinities and NaN are
  constructors of their own.
\<close>

datatype number = Fin rat | NegZero | PosInf | NegInf | NaN

text \<open>\<open>ilog2 x\<close> is the binary exponent of a positive rational: \<open>2 ^ ilog2 x \<le> x < 2 ^ (ilog2 x + 1)\<close>.\<close>

definition ilog2 :: "rat \<Rightarrow> int" where
  "ilog2 x =
     (if 1 \<le> x then bitlen \<lfloor>x\<rfloor> - 1
      else - bitlen (\<lceil>1 / x\<rceil> - 1))"

text \<open>Powers of two with an integer exponent.\<close>

definition pow2 :: "int \<Rightarrow> rat" where
  "pow2 e = (if 0 \<le> e then 2 ^ nat e else 1 / 2 ^ nat (- e))"

text \<open>Rounding to the nearest integer, a tie going to the even neighbour.\<close>

definition round_even :: "rat \<Rightarrow> int" where
  "round_even y =
     (let m = \<lfloor>y\<rfloor>; f = y - of_int m
      in if f < 1 / 2 then m
         else if 1 / 2 < f then m + 1
         else if even m then m else m + 1)"

text \<open>
  The spacing of binary64 values around \<open>x\<close>: 52 fraction bits below the exponent, the
  exponent never below \<open>-1022\<close> (the subnormal range has the spacing \<open>2 ^ -1074\<close>).
\<close>

definition quantum :: "rat \<Rightarrow> rat" where
  "quantum x = pow2 (max (ilog2 \<bar>x\<bar>) (- 1022) - 52)"

definition rnd :: "rat \<Rightarrow> rat" where
  "rnd x = (if x = 0 then 0 else of_int (round_even (x / quantum x)) * quantum x)"

text \<open>
  \<open>fl x\<close> is the binary64 result of an operation whose exact result is \<open>x\<close>:
  round to nearest, ties to even, overflow to an infinity, and a negative result that
  rounds to zero gives the negative zero.
\<close>

definition fl :: "rat \<Rightarrow> number" where
  "fl x =
     (let r = rnd x
      in if pow2 1024 \<le> \<bar>r\<bar> then (if 0 < x then PosInf else NegInf)
         else if r = 0 \<and> x < 0 then NegZero
         else Fin r)"

text \<open>
  The operators the animators use: \<^verbatim>\<open>+\<close>, \<^verbatim>\<open>/\<close>, \<^verbatim>\<open>>=\<close> and \<^verbatim>\<open>Math.floor\<close>. The sum of
  two zeros is negative only when both are; the sign of a zero or infinite quotient is
  the product of the signs of its operands; the comparison does not tell the zeros
  apart.
\<close>

fun num_add :: "number \<Rightarrow> number \<Rightarrow> number" where
  "num_add (Fin a) (Fin b) = fl (a + b)"
| "num_add (Fin a) NegZero = Fin a"
| "num_add NegZero (Fin b) = Fin b"
| "num_add NegZero NegZero = NegZero"
| "num_add NaN _ = NaN"
| "num_add _ NaN = NaN"
| "num_add PosInf NegInf = NaN"
| "num_add NegInf PosInf = NaN"
| "num_add PosInf _ = PosInf"
| "num_add _ PosInf = PosInf"
| "num_add NegInf _ = NegInf"
| "num_add _ NegInf = NegInf"

fun num_div :: "number \<Rightarrow> number \<Rightarrow> number" where
  "num_div (Fin a) (Fin b) =
     (if b = 0 then (if a = 0 then NaN else if 0 < a then PosInf else NegInf)
      else if a = 0 then (if 0 < b then Fin 0 else NegZero)
      else fl (a / b))"
| "num_div (Fin a) NegZero = (if a = 0 then NaN else if 0 < a then NegInf else PosInf)"
| "num_div NegZero (Fin b) = (if b = 0 then NaN else if 0 < b then NegZero else Fin 0)"
| "num_div NegZero NegZero = NaN"
| "num_div NaN _ = NaN"
| "num_div _ NaN = NaN"
| "num_div (Fin a) PosInf = (if 0 \<le> a then Fin 0 else NegZero)"
| "num_div (Fin a) NegInf = (if 0 \<le> a then NegZero else Fin 0)"
| "num_div NegZero PosInf = NegZero"
| "num_div NegZero NegInf = Fin 0"
| "num_div PosInf (Fin b) = (if 0 \<le> b then PosInf else NegInf)"
| "num_div PosInf NegZero = NegInf"
| "num_div NegInf (Fin b) = (if 0 \<le> b then NegInf else PosInf)"
| "num_div NegInf NegZero = PosInf"
| "num_div _ _ = NaN"

fun num_ge :: "number \<Rightarrow> number \<Rightarrow> bool" where
  "num_ge NaN _ = False"
| "num_ge _ NaN = False"
| "num_ge PosInf _ = True"
| "num_ge _ NegInf = True"
| "num_ge NegInf _ = False"
| "num_ge _ PosInf = False"
| "num_ge (Fin a) (Fin b) = (b \<le> a)"
| "num_ge (Fin a) NegZero = (0 \<le> a)"
| "num_ge NegZero (Fin b) = (b \<le> 0)"
| "num_ge NegZero NegZero = True"

fun num_floor :: "number \<Rightarrow> number" where
  "num_floor (Fin a) = Fin (of_int \<lfloor>a\<rfloor>)"
| "num_floor x = x"


section \<open>JavaScript values and the falsy-or default\<close>

datatype jsval = Undefined | Num number | Str string

fun truthy :: "jsval \<Rightarrow> bool" where
  "truthy Undefined = False"
| "truthy (Num (Fin r)) = (r \<noteq> 0)"
| "truthy (Num NegZero) = False"
| "truthy (Num NaN) = False"
| "truthy (Num PosInf) = True"
| "truthy (Num NegInf) = True"
| "truthy (Str s) = (s \<noteq> [])"

text \<open>\<^verbatim>\<open>a || b\<close>\<close>

definition js_or :: "jsval \<Rightarrow> jsval \<Rightarrow> jsval" where
  "js_or a b = (if truthy a then a else b)"

section \<open>useInView\<close>

text \<open>
  The \<^verbatim>\<open>options\<close> argument; a property that the caller leaves out reads as
  \<^verbatim>\<open>undefined\<close>.
\<close>

record options =
  opt_threshold :: jsval
  opt_rootMargin :: jsval

definition no_options :: options where
  "no_options = \<lparr>opt_threshold = Undefined, opt_rootMargin = Undefined\<rparr>"

text \<open>The init dictionary handed to \<^verbatim>\<open>new IntersectionObserver\<close>.\<close>

record observer_init =
  threshold :: jsval
  rootMargin :: jsval

definition useInView_observer_init :: "options \<Rightarrow> observer_init" where
  "useInView_observer_init opts =
     \<lparr>threshold = js_or (opt_threshold opts) (Num (fl (15 / 100))),
      rootMargin = js_or (opt_rootMargin opts) (Str ''0px'')\<rparr>"

record entry =
  isIntersecting :: bool
  intersectionRatio :: rat

text \<open>
  The observer callback \<^verbatim>\<open>([entry]) => { if (entry.isIntersecting) setIsInView(true); }\<close>
  applied to the current value of \<^verbatim>\<open>isInView\<close>. It reads the first entry of the batch only.
  On an empty batch \<^verbatim>\<open>entry\<close> is \<^verbatim>\<open>undefined\<close> and the property read throws before any
  state is set, so the flag is unchanged.
\<close>

definition observer_callback :: "entry list \<Rightarrow> bool \<Rightarrow> bool" where
  "observer_callback entries isInView =
     (case entries of
        [] \<Rightarrow> isInView
      | entry # _ \<Rightarrow> if isIntersecting entry then True else isInView)"

text \<open>
  The hook instance: its state cell and the observer its effect registered, if any
  (\<^verbatim>\<open>if (!el) return;\<close> registers none when the ref is not attached).
\<close>

record inview_state =
  isInView :: bool
  observer :: "observer_init option"

definition useInView :: "options \<Rightarrow> bool \<Rightarrow> inview_state" where
  "useInView opts el =
     \<lparr>isInView = False,
      observer = (if el then Some (useInView_observer_init opts) else None)\<rparr>"

datatype inview_event = Entries "entry list" | Unobserve

fun useInView_step :: "inview_event \<Rightarrow> inview_state \<Rightarrow> inview_state" where
  "useInView_step (Entries es) s =
     (case observer s of
        None \<Rightarrow> s
      | Some _ \<Rightarrow> s\<lparr>isInView := observer_callback es (isInView s)\<rparr>)"
| "useInView_step Unobserve s = s\<lparr>observer := None\<rparr>"

text \<open>The values of the flag after each event, the initial value first.\<close>

fun useInView_trace :: "inview_event list \<Rightarrow> inview_state \<Rightarrow> bool list" where
  "useInView_trace [] s = [isInView s]"
| "useInView_trace (e # es) s = isInView s # useInView_trace es (useInView_step e s)"

fun rises :: "bool list \<Rightarrow> nat" where
  "rises (a # b # bs) = (if \<not> a \<and> b then 1 else 0) + rises (b # bs)"
| "rises _ = 0"

fun falls :: "bool list \<Rightarrow> nat" where
  "falls (a # b # bs) = (if a \<and> \<not> b then 1 else 0) + falls (b # bs)"
| "falls _ = 0"

section \<open>Reveal\<close>

text \<open>
  A CSS translation in pixels: \<^verbatim>\<open>translateX(a px)\<close>, \<^verbatim>\<open>translateY(b px)\<close> and
  \<^verbatim>\<open>translate(a, b)\<close>. \<open>offset\<close> is the displacement it denotes, the x axis pointing
  right and the y axis pointing down.
\<close>

datatype transform = TranslateX int | TranslateY int | Translate int int

fun offset :: "transform \<Rightarrow> int \<times> int" where
  "offset (TranslateX a) = (a, 0)"
| "offset (TranslateY b) = (0, b)"
| "offset (Translate a b) = (a, b)"

definition transforms :: "(string \<times> transform) list" where
  "transforms =
     [(''up'', TranslateY 60),
      (''left'', TranslateX (- 60)),
      (''right'', TranslateX 60),
      (''none'', TranslateY 0)]"

text \<open>
  The \<^verbatim>\<open>style\<close> of the wrapper (the \<^verbatim>\<open>transition\<close> property, which only carries the delay,
  is left out). \<open>style_transform\<close> is \<open>None\<close> for a direction that is not a key of
  the table, where \<^verbatim>\<open>transforms[direction]\<close> is \<^verbatim>\<open>undefined\<close>.
\<close>

record style =
  opacity :: nat
  style_transform :: "transform option"


definition Reveal :: "string \<Rightarrow> bool \<Rightarrow> style" where
  "Reveal direction inView =
     \<lparr>opacity = (if inView then 1 else 0),
      style_transform = (if inView then Some (Translate 0 0) else map_of transforms direction)\<rparr>"


section \<open>Counter\<close>

text \<open>
  The props after destructuring, that is with the defaults \<^verbatim>\<open>suffix = ""\<close>,
  \<^verbatim>\<open>prefix = ""\<close> and \<^verbatim>\<open>duration = 2000\<close> filled in.
\<close>

record counter_props =
  c_end :: number
  c_suffix :: string
  c_prefix :: string
  c_duration :: number

definition Counter_props :: "number \<Rightarrow> counter_props" where
  "Counter_props e = \<lparr>c_end = e, c_suffix = [], c_prefix = [], c_duration = Fin 2000\<rparr>"


text \<open>
  A pending interval timer with the variables its callback closes over: \<^verbatim>\<open>start\<close>,
  \<^verbatim>\<open>step\<close> and \<^verbatim>\<open>end\<close> of the effect run that called \<^verbatim>\<open>setInterval\<close>.
\<close>

record interval =
  iv_id :: nat
  iv_start :: number
  iv_step :: number
  iv_end :: number

text \<open>
  A mounted instance. \<open>c_deps\<close> is the dependency array \<^verbatim>\<open>[inView, end, duration]\<close> of
  the last run of the effect, \<open>c_cleanup\<close> the timer that the cleanup function returned
  by that run clears (\<open>None\<close> when the run returned nothing), \<open>c_timers\<close> the timers of
  this instance that the host still holds. \<open>c_ticks\<close> counts the invocations of the
  interval callback.
\<close>

record counter_state =
  c_props :: counter_props
  c_count :: number
  c_inView :: bool
  c_mounted :: bool
  c_deps :: "bool \<times> number \<times> number"
  c_cleanup :: "nat option"
  c_timers :: "interval list"
  c_next_id :: nat
  c_ticks :: nat

definition Counter_deps :: "counter_state \<Rightarrow> bool \<times> number \<times> number" where
  "Counter_deps s = (c_inView s, c_end (c_props s), c_duration (c_props s))"

text \<open>The body of the effect.\<close>

definition Counter_effect :: "counter_state \<Rightarrow> counter_state" where
  "Counter_effect s =
     (if \<not> c_inView s then s\<lparr>c_cleanup := None\<rparr>
      else
        let step = num_div (c_end (c_props s)) (num_div (c_duration (c_props s)) (Fin 16));
            timer = c_next_id s
        in s\<lparr>c_timers := c_timers s @
                 [\<lparr>iv_id = timer, iv_start = Fin 0, iv_step = step, iv_end = c_end (c_props s)\<rparr>],
              c_next_id := timer + 1,
              c_cleanup := Some timer\<rparr>)"

text \<open>Running the cleanup function of the last effect run: \<^verbatim>\<open>clearInterval(timer)\<close>.\<close>

definition Counter_cleanup :: "counter_state \<Rightarrow> counter_state" where
  "Counter_cleanup s =
     (case c_cleanup s of
        None \<Rightarrow> s
      | Some timer \<Rightarrow> s\<lparr>c_timers := filter (\<lambda>t. iv_id t \<noteq> timer) (c_timers s), c_cleanup := None\<rparr>)"

text \<open>
  A render of a mounted instance: when a dependency differs from the last run, React
  runs the cleanup of that run and then the effect again.
\<close>

definition Counter_render :: "counter_state \<Rightarrow> counter_state" where
  "Counter_render s =
     (if c_mounted s \<and> Counter_deps s \<noteq> c_deps s
      then (Counter_effect (Counter_cleanup s))\<lparr>c_deps := Counter_deps s\<rparr>
      else s)"

text \<open>The mount: \<^verbatim>\<open>count = 0\<close>, \<^verbatim>\<open>isInView = false\<close>, and the effect runs once.\<close>

definition Counter :: "counter_props \<Rightarrow> counter_state" where
  "Counter p =
     Counter_effect
       \<lparr>c_props = p, c_count = Fin 0, c_inView = False, c_mounted = True,
        c_deps = (False, c_end p, c_duration p), c_cleanup = None, c_timers = [],
        c_next_id = 0, c_ticks = 0\<rparr>"

text \<open>The interval callback of timer \<open>t\<close>.\<close>

definition Counter_tick :: "interval \<Rightarrow> counter_state \<Rightarrow> counter_state" where
  "Counter_tick t s =
     (let start = num_add (iv_start t) (iv_step t)
      in if num_ge start (iv_end t)
         then s\<lparr>c_count := iv_end t,
                c_timers := filter (\<lambda>u. iv_id u \<noteq> iv_id t) (c_timers s),
                c_ticks := c_ticks s + 1\<rparr>
         else s\<lparr>c_count := num_floor start,
                c_timers := map (\<lambda>u. if iv_id u = iv_id t then u\<lparr>iv_start := start\<rparr> else u) (c_timers s),
                c_ticks := c_ticks s + 1\<rparr>)"

text \<open>
  What can happen to an instance: the observer delivers a batch of entries, the host
  fires a timer, the parent passes new props, React unmounts the instance. Firing a
  timer that is not pending does nothing; an unmounted instance is not rendered any
  more and its observer is disconnected.
\<close>

datatype counter_event =
  C_Entries "entry list" | C_Fire nat | C_Props counter_props | C_Unmount

fun Counter_step :: "counter_event \<Rightarrow> counter_state \<Rightarrow> counter_state" where
  "Counter_step (C_Entries es) s =
     (if c_mounted s then Counter_render (s\<lparr>c_inView := observer_callback es (c_inView s)\<rparr>) else s)"
| "Counter_step (C_Fire timer) s =
     (case find (\<lambda>t. iv_id t = timer) (c_timers s) of
        None \<Rightarrow> s
      | Some t \<Rightarrow> Counter_render (Counter_tick t s))"
| "Counter_step (C_Props p) s =
     (if c_mounted s then Counter_render (s\<lparr>c_props := p\<rparr>) else s)"
| "Counter_step C_Unmount s =
     (if c_mounted s then (Counter_cleanup s)\<lparr>c_mounted := False\<rparr> else s)"

fun Counter_run :: "counter_event list \<Rightarrow> counter_state \<Rightarrow> counter_state" where
  "Counter_run [] s = s"
| "Counter_run (e # es) s = Counter_run es (Counter_step e s)"

text \<open>The instance once the visibility flag is true, and after \<open>n\<close> firings of its timer.\<close>

definition visible :: entry where
  "visible = \<lparr>isIntersecting = True, intersectionRatio = 1\<rparr>"

definition Counter_visible :: "counter_props \<Rightarrow> counter_state" where
  "Counter_visible p = Counter_step (C_Entries [visible]) (Counter p)"

definition Counter_after :: "counter_props \<Rightarrow> nat \<Rightarrow> counter_state" where
  "Counter_after p n = Counter_run (replicate n (C_Fire 0)) (Counter_visible p)"

section \<open>Typewriter\<close>

record typewriter_props =
  t_text :: string
  t_speed :: number
  t_delay :: number

definition Typewriter_props :: "string \<Rightarrow> typewriter_props" where
  "Typewriter_props txt = \<lparr>t_text = txt, t_speed = Fin 35, t_delay = Fin 500\<rparr>"


text \<open>
  A pending timer with its period and what its callback closes over. The one-shot
  timer holds \<^verbatim>\<open>text\<close> and \<^verbatim>\<open>speed\<close> of the effect run that made it; the interval
  that its callback makes holds \<^verbatim>\<open>text\<close> and the counter \<^verbatim>\<open>i\<close> of that run.
\<close>

datatype timer =
  Timeout (timer_id: nat) (timer_ms: number) (timer_text: string) (timer_speed: number)
| Interval (timer_id: nat) (timer_ms: number) (timer_text: string) (timer_i: nat)

text \<open>
  \<open>t_deps\<close> is the dependency array \<^verbatim>\<open>[inView, started, text, speed, delay]\<close> of the last
  effect run. \<open>t_sequences\<close> counts the effect runs that passed the guard and called
  \<^verbatim>\<open>setTimeout\<close>.
\<close>

record typewriter_state =
  t_props :: typewriter_props
  t_displayed :: string
  t_started :: bool
  t_inView :: bool
  t_mounted :: bool
  t_deps :: "bool \<times> bool \<times> string \<times> number \<times> number"
  t_cleanup :: "nat option"
  t_timers :: "timer list"
  t_next_id :: nat
  t_sequences :: nat

definition Typewriter_deps :: "typewriter_state \<Rightarrow> bool \<times> bool \<times> string \<times> number \<times> number" where
  "Typewriter_deps s =
     (t_inView s, t_started s, t_text (t_props s), t_speed (t_props s), t_delay (t_props s))"

text \<open>
  The body of the effect. It reads \<^verbatim>\<open>started\<close> of the render it belongs to and
  requests \<^verbatim>\<open>started = true\<close> for the next one.
\<close>

definition Typewriter_effect :: "typewriter_state \<Rightarrow> typewriter_state" where
  "Typewriter_effect s =
     (if \<not> t_inView s \<or> t_started s then s\<lparr>t_cleanup := None\<rparr>
      else
        let timeout = t_next_id s
        in s\<lparr>t_started := True,
              t_timers := t_timers s @
                 [Timeout timeout (t_delay (t_props s)) (t_text (t_props s)) (t_speed (t_props s))],
              t_next_id := timeout + 1,
              t_cleanup := Some timeout,
              t_sequences := t_sequences s + 1\<rparr>)"

text \<open>Running the cleanup function of the last effect run: \<^verbatim>\<open>clearTimeout(timeout)\<close>.\<close>

definition Typewriter_cleanup :: "typewriter_state \<Rightarrow> typewriter_state" where
  "Typewriter_cleanup s =
     (case t_cleanup s of
        None \<Rightarrow> s
      | Some timeout \<Rightarrow>
          s\<lparr>t_timers := filter (\<lambda>t. timer_id t \<noteq> timeout) (t_timers s), t_cleanup := None\<rparr>)"

text \<open>
  One render and commit: the dependencies are those of the state being rendered; when
  one differs from the last run, the cleanup of that run and then the effect run.
\<close>

definition Typewriter_commit :: "typewriter_state \<Rightarrow> typewriter_state" where
  "Typewriter_commit s =
     (if t_mounted s \<and> Typewriter_deps s \<noteq> t_deps s
      then (Typewriter_effect (Typewriter_cleanup s))\<lparr>t_deps := Typewriter_deps s\<rparr>
      else s)"

definition Typewriter :: "typewriter_props \<Rightarrow> typewriter_state" where
  "Typewriter p =
     Typewriter_effect
       \<lparr>t_props = p, t_displayed = [], t_started = False, t_inView = False, t_mounted = True,
        t_deps = (False, False, t_text p, t_speed p, t_delay p), t_cleanup = None,
        t_timers = [], t_next_id = 0, t_sequences = 0\<rparr>"

text \<open>
  The callback of a timer. The one-shot timer leaves the host's list when it fires and
  makes the interval; the function that its callback returns is dropped by
  \<^verbatim>\<open>setTimeout\<close>. The interval callback adds one character and clears its own timer at
  the end of the text.
\<close>

fun Typewriter_fire :: "timer \<Rightarrow> typewriter_state \<Rightarrow> typewriter_state" where
  "Typewriter_fire (Timeout timeout ms txt speed) s =
     s\<lparr>t_timers := filter (\<lambda>t. timer_id t \<noteq> timeout) (t_timers s) @
                     [Interval (t_next_id s) speed txt 0],
       t_next_id := t_next_id s + 1\<rparr>"
| "Typewriter_fire (Interval interval ms txt i) s =
     (let i' = i + 1
      in s\<lparr>t_displayed := take i' txt,
            t_timers :=
              (if length txt \<le> i'
               then filter (\<lambda>t. timer_id t \<noteq> interval) (t_timers s)
               else map (\<lambda>t. if timer_id t = interval then Interval interval ms txt i' else t)
                      (t_timers s))\<rparr>)"

text \<open>
  The events of an instance. The observer callback, a timer callback and the effect only
  request state updates; React renders later, as an event of its own: nothing in the
  component orders the render that \<^verbatim>\<open>setStarted(true)\<close> requests and the firing of the
  timer set by the same effect run. A render uses the latest state and commits with its
  effect. New props arrive with a render of the parent, so with a commit.
\<close>

datatype typewriter_event =
  T_Entries "entry list" | T_Render | T_Fire nat | T_Props typewriter_props | T_Unmount

fun Typewriter_step :: "typewriter_event \<Rightarrow> typewriter_state \<Rightarrow> typewriter_state" where
  "Typewriter_step (T_Entries es) s =
     (if t_mounted s then s\<lparr>t_inView := observer_callback es (t_inView s)\<rparr> else s)"
| "Typewriter_step T_Render s = Typewriter_commit s"
| "Typewriter_step (T_Fire n) s =
     (case find (\<lambda>t. timer_id t = n) (t_timers s) of
        None \<Rightarrow> s
      | Some t \<Rightarrow> Typewriter_fire t s)"
| "Typewriter_step (T_Props p) s =
     (if t_mounted s then Typewriter_commit (s\<lparr>t_props := p\<rparr>) else s)"
| "Typewriter_step T_Unmount s =
     (if t_mounted s then (Typewriter_cleanup s)\<lparr>t_mounted := False\<rparr> else s)"

fun Typewriter_run :: "typewriter_event list \<Rightarrow> typewriter_state \<Rightarrow> typewriter_state" where
  "Typewriter_run [] s = s"
| "Typewriter_run (e # es) s = Typewriter_run es (Typewriter_step e s)"

text \<open>
  A schedule in which React has rendered before the host delivers the next event, as
  it has whenever the host is idle for a moment after an event: two renders follow each
  event, the second one being the render that the effect of the first may have
  requested. A third would change nothing (lemma \<open>Typewriter_commit_stable\<close>).
\<close>

fun settled :: "typewriter_event list \<Rightarrow> typewriter_event list" where
  "settled [] = []"
| "settled (e # es) = e # T_Render # T_Render # settled es"

section \<open>Findings\<close>

text \<open>An entry of the \<^verbatim>\<open>findings\<close> list (its \<^verbatim>\<open>detail\<close> text is left out).\<close>

record finding =
  f_number :: number
  f_suffix :: string
  f_label :: string

definition findings :: "finding list" where
  "findings =
     [\<lparr>f_number = Fin 100, f_suffix = ''K+'', f_label = ''Monthly recurring revenue generated''\<rparr>,
      \<lparr>f_number = Fin 19, f_suffix = ''x'', f_label = ''Return on ad spend''\<rparr>,
      \<lparr>f_number = Fin 20, f_suffix = ''M+'', f_label = ''GMV processed through Reacher''\<rparr>,
      \<lparr>f_number = Fin 1000, f_suffix = ''+'', f_label = ''Creator partnerships orchestrated''\<rparr>]"

text \<open>\<^verbatim>\<open>s[0]\<close>: the first character as a string, \<^verbatim>\<open>undefined\<close> on the empty string.\<close>

definition char_at0 :: "string \<Rightarrow> jsval" where
  "char_at0 s = (case s of [] \<Rightarrow> Undefined | c # _ \<Rightarrow> Str [c])"

text \<open>\<^verbatim>\<open>f.number >= 20 ? "$" === f.label[0] ? "$" : "" : ""\<close>\<close>

definition Findings_prefix :: "finding \<Rightarrow> string" where
  "Findings_prefix f =
     (if num_ge (f_number f) (Fin 20)
      then (if Str ''$'' = char_at0 (f_label f) then ''$'' else [])
      else [])"

text \<open>The props of the \<^verbatim>\<open>Counter\<close> that the section renders for an entry.\<close>

definition Findings_counter :: "finding \<Rightarrow> counter_props" where
  "Findings_counter f =
     \<lparr>c_end = f_number f, c_suffix = f_suffix f, c_prefix = Findings_prefix f,
      c_duration = Fin 2000\<rparr>"


section \<open>Derived notions\<close>

text \<open>\<^verbatim>\<open>const step = end / (duration / 16)\<close>\<close>

definition Counter_step_size :: "counter_props \<Rightarrow> number" where
  "Counter_step_size p = num_div (c_end p) (num_div (c_duration p) (Fin 16))"

text \<open>
  The variable \<^verbatim>\<open>start\<close> after \<open>k\<close> executions of \<^verbatim>\<open>start += step\<close>.
\<close>

fun Counter_start :: "number \<Rightarrow> nat \<Rightarrow> number" where
  "Counter_start step 0 = Fin 0"
| "Counter_start step (Suc k) = num_add (Counter_start step k) step"

text \<open>
  The two shapes of a visible instance with unchanged props: the interval pending,
  with the value of \<^verbatim>\<open>start\<close>, the displayed count and the number of ticks so far;
  and the interval cleared after \<open>n\<close> ticks.
\<close>

definition Counter_running :: "counter_props \<Rightarrow> number \<Rightarrow> number \<Rightarrow> nat \<Rightarrow> counter_state" where
  "Counter_running p start cnt n =
     \<lparr>c_props = p, c_count = cnt, c_inView = True, c_mounted = True,
      c_deps = (True, c_end p, c_duration p), c_cleanup = Some 0,
      c_timers = [\<lparr>iv_id = 0, iv_start = start, iv_step = Counter_step_size p, iv_end = c_end p\<rparr>],
      c_next_id = 1, c_ticks = n\<rparr>"

definition Counter_done :: "counter_props \<Rightarrow> nat \<Rightarrow> counter_state" where
  "Counter_done p n =
     \<lparr>c_props = p, c_count = c_end p, c_inView = True, c_mounted = True,
      c_deps = (True, c_end p, c_duration p), c_cleanup = Some 0,
      c_timers = [], c_next_id = 1, c_ticks = n\<rparr>"

text \<open>
  Invariants of the reachable states. A Counter never holds a timer that the
  registered cleanup does not clear, and none once unmounted.
\<close>

definition counter_inv :: "counter_state \<Rightarrow> bool" where
  "counter_inv s \<longleftrightarrow>
     (\<forall>t \<in> set (c_timers s). c_cleanup s = Some (iv_id t)) \<and>
     (\<not> c_mounted s \<longrightarrow> c_timers s = [])"

text \<open>
  A Typewriter, in every state of every schedule: the effect has passed its guard once
  if \<^verbatim>\<open>started\<close> is set and never otherwise; the timers made so far are the timeout
  (number 0) if \<^verbatim>\<open>started\<close> is set and then the interval (number 1) if the timeout has
  fired; at most one of them is pending; a pending timeout is the one that the
  registered cleanup clears, which never names the interval, and was set by an effect
  run that read \<^verbatim>\<open>started\<close> as false; nothing is displayed before the interval is made.
\<close>

definition typewriter_inv :: "typewriter_state \<Rightarrow> bool" where
  "typewriter_inv s \<longleftrightarrow>
     t_sequences s = (if t_started s then 1 else 0) \<and>
     (t_started s \<longleftrightarrow> 1 \<le> t_next_id s) \<and> t_next_id s \<le> 2 \<and>
     (fst (t_deps s) \<longrightarrow> t_started s) \<and>
     (t_cleanup s = None \<or> t_cleanup s = Some 0) \<and>
     length (t_timers s) \<le> 1 \<and>
     (\<forall>t \<in> set (t_timers s).
        case t of
          Timeout k ms txt sp \<Rightarrow>
            k = 0 \<and> t_next_id s = 1 \<and> t_cleanup s = Some 0 \<and> t_mounted s \<and>
            \<not> fst (snd (t_deps s))
        | Interval k ms txt i \<Rightarrow> k = 1 \<and> t_next_id s = 2) \<and>
     (t_next_id s < 2 \<longrightarrow> t_displayed s = [])"

text \<open>
  A Typewriter between the events of a settled schedule: no timer is pending, nothing
  has been displayed, and no render is due.
\<close>

definition typewriter_settled :: "typewriter_state \<Rightarrow> bool" where
  "typewriter_settled s \<longleftrightarrow>
     t_timers s = [] \<and> t_displayed s = [] \<and> t_cleanup s = None \<and>
     (t_started s \<longleftrightarrow> t_inView s) \<and>
     (t_mounted s \<longrightarrow> t_deps s = Typewriter_deps s)"

text \<open>
  Rounding on integers, for values that are an integer multiple of a power of two:
  \<open>round_even_div M p\<close> is \<open>M / p\<close> rounded to the nearest integer, ties to even, and
  \<open>rnd_int M\<close> is \<open>M\<close> rounded to 53 significant bits. \<open>dy M e\<close> is the number
  \<open>M * 2 ^ e\<close>.
\<close>

definition round_even_div :: "int \<Rightarrow> int \<Rightarrow> int" where
  "round_even_div M p =
     (let q = M div p; r = M mod p
      in if 2 * r < p then q else if p < 2 * r then q + 1 else if even q then q else q + 1)"

definition rnd_int :: "int \<Rightarrow> int" where
  "rnd_int M =
     (let k = bitlen M - 53
      in if k \<le> 0 then M else round_even_div M (2 ^ nat k) * 2 ^ nat k)"

definition dy :: "int \<Rightarrow> int \<Rightarrow> number" where
  "dy M e = Fin (of_int M * pow2 e)"

text \<open>
  The loop of the interval callback on such values, all with the same exponent: from
  \<^verbatim>\<open>start = A\<close>, with \<^verbatim>\<open>step = T\<close> and \<^verbatim>\<open>end = E\<close>, the number of the tick at which
  \<^verbatim>\<open>start >= end\<close> first holds, looked for among the first \<open>f\<close> ticks.
\<close>

fun irun :: "int \<Rightarrow> int \<Rightarrow> nat \<Rightarrow> int \<Rightarrow> nat option" where
  "irun T E 0 A = None"
| "irun T E (Suc f) A =
     (let A' = rnd_int (A + T)
      in if 2 ^ 1000 \<le> A' then None
         else if E \<le> A' then Some 1
         else map_option Suc (irun T E f A'))"

text \<open>The unit roundoff of binary64.\<close>

definition u53 :: rat where
  "u53 = pow2 (- 53)"

section \<open>Rounding\<close>

lemma pow2_powi: "pow2 e = 2 powi e"
  by (simp add: pow2_def power_int_def power_inverse inverse_eq_divide power_one_over)

lemma pow2_pos: "0 < pow2 e"
  by (simp add: pow2_powi)

lemma pow2_add: "pow2 (a + b) = pow2 a * pow2 b"
  by (simp add: pow2_powi power_int_add)

lemma pow2_mono: "a \<le> b \<Longrightarrow> pow2 a \<le> pow2 b"
  by (simp add: pow2_powi power_int_increasing)

lemma pow2_less_iff: "pow2 a < pow2 b \<longleftrightarrow> a < b"
  by (metis pow2_mono pow2_powi linorder_not_le one_less_numeral_iff power_int_strict_increasing semiring_norm(76))

lemma pow2_numeral: "pow2 (numeral n) = 2 ^ numeral n" "pow2 (- numeral n) = 1 / 2 ^ numeral n" "pow2 0 = 1"
  by (simp_all add: pow2_def)

lemma bitlen_pos: "0 < a \<Longrightarrow> 0 < bitlen a"
proof (rule ccontr)
  assume a: "0 < a" and "\<not> 0 < bitlen a"
  then have "nat (bitlen a) = 0" by simp
  with bitlen_bounds[OF a] show False using a by simp
qed

lemma ilog2_bounds:
  assumes "0 < x"
  shows "pow2 (ilog2 x) \<le> x" and "x < pow2 (ilog2 x + 1)"
proof -
  show "pow2 (ilog2 x) \<le> x"
  proof (cases "1 \<le> x")
    case True
    define n where "n = \<lfloor>x\<rfloor>"
    have n: "0 < n" using True by (simp add: n_def)
    from bitlen_bounds[OF n] have "2 ^ nat (bitlen n - 1) \<le> n" by simp
    then have "(2::rat) ^ nat (bitlen n - 1) \<le> of_int n"
      by (metis of_int_le_iff of_int_numeral of_int_power)
    also have "\<dots> \<le> x" by (simp add: n_def)
    finally show ?thesis
      using True bitlen_pos[OF n] by (simp add: ilog2_def pow2_def n_def)
  next
    case False
    define n where "n = \<lceil>1 / x\<rceil>"
    have y: "1 < 1 / x" using False assms by simp
    then have n: "0 < n - 1" unfolding n_def by linarith
    from bitlen_bounds[OF n] have "n - 1 < 2 ^ nat (bitlen (n - 1))" by simp
    then have "n \<le> 2 ^ nat (bitlen (n - 1))" by simp
    then have "(of_int n :: rat) \<le> 2 ^ nat (bitlen (n - 1))"
      by (metis of_int_le_iff of_int_numeral of_int_power)
    moreover have "1 / x \<le> of_int n" by (simp add: n_def)
    ultimately have "1 / x \<le> 2 ^ nat (bitlen (n - 1))" by linarith
    then have "1 / 2 ^ nat (bitlen (n - 1)) \<le> x"
      using assms by (simp add: field_simps)
    moreover have "0 < bitlen (n - 1)" using n by (rule bitlen_pos)
    ultimately show ?thesis
      using False by (simp add: ilog2_def pow2_def n_def)
  qed
  show "x < pow2 (ilog2 x + 1)"
  proof (cases "1 \<le> x")
    case True
    define n where "n = \<lfloor>x\<rfloor>"
    have n: "0 < n" using True by (simp add: n_def)
    from bitlen_bounds[OF n] have "n + 1 \<le> 2 ^ nat (bitlen n)" by simp
    then have "(of_int (n + 1) :: rat) \<le> 2 ^ nat (bitlen n)"
      by (metis of_int_le_iff of_int_numeral of_int_power)
    moreover have "x < of_int (n + 1)" unfolding n_def by linarith
    ultimately have "x < 2 ^ nat (bitlen n)" by linarith
    then show ?thesis
      using True bitlen_pos[OF n] by (simp add: ilog2_def pow2_def n_def)
  next
    case False
    define n where "n = \<lceil>1 / x\<rceil>"
    have y: "1 < 1 / x" using False assms by simp
    then have n: "0 < n - 1" unfolding n_def by linarith
    have b: "0 < bitlen (n - 1)" using n by (rule bitlen_pos)
    from bitlen_bounds[OF n] have "2 ^ nat (bitlen (n - 1) - 1) \<le> n - 1" by simp
    then have "(2::rat) ^ nat (bitlen (n - 1) - 1) \<le> of_int (n - 1)"
      by (metis of_int_le_iff of_int_numeral of_int_power)
    moreover have "of_int (n - 1) < 1 / x" unfolding n_def by linarith
    ultimately have "2 ^ nat (bitlen (n - 1) - 1) < 1 / x" by linarith
    then have "x < 1 / 2 ^ nat (bitlen (n - 1) - 1)"
      using assms by (simp add: field_simps)
    then show ?thesis
      using False b by (auto simp add: ilog2_def pow2_def n_def)
  qed
qed

lemma ilog2_unique:
  assumes "pow2 e \<le> x" "x < pow2 (e + 1)"
  shows "ilog2 x = e"
proof -
  have x: "0 < x" using assms(1) pow2_pos[of e] by linarith
  have "pow2 (ilog2 x) < pow2 (e + 1)" using ilog2_bounds(1)[OF x] assms(2) by linarith
  then have a: "ilog2 x < e + 1" by (simp add: pow2_less_iff)
  have "pow2 e < pow2 (ilog2 x + 1)" using ilog2_bounds(2)[OF x] assms(1) by linarith
  then have "e < ilog2 x + 1" by (simp add: pow2_less_iff)
  with a show ?thesis by simp
qed

lemma round_even_error: "\<bar>of_int (round_even y) - y\<bar> \<le> 1 / 2"
proof -
  define m where "m = \<lfloor>y\<rfloor>"
  have m: "of_int m \<le> y" "y < of_int m + 1" unfolding m_def by linarith+
  have r: "round_even y = (if y - of_int m < 1 / 2 then m
         else if 1 / 2 < y - of_int m then m + 1
         else if even m then m else m + 1)"
    by (simp add: round_even_def Let_def m_def)
  show ?thesis using m unfolding r by (auto simp: abs_if)
qed

lemma round_even_unique:
  assumes "\<bar>y - of_int m\<bar> < 1 / 2"
  shows "round_even y = m"
proof -
  have "\<bar>of_int (round_even y) - y\<bar> \<le> 1 / 2" by (rule round_even_error)
  with assms have "\<bar>(of_int (round_even y) :: rat) - of_int m\<bar> < 1" by linarith
  then have "\<bar>(of_int (round_even y - m) :: rat)\<bar> < 1" by simp
  then have "\<bar>round_even y - m\<bar> < 1"
    by (metis of_int_abs of_int_less_1_iff)
  then show ?thesis by simp
qed

lemma round_even_of_int: "round_even (of_int m) = m"
  by (rule round_even_unique) simp


lemma pow2_half: "pow2 (e - 1) = pow2 e / 2"
  by (simp add: pow2_powi power_int_diff)

lemma quantum_normal:
  assumes "pow2 e \<le> \<bar>x\<bar>" "\<bar>x\<bar> < pow2 (e + 1)" "- 1022 \<le> e"
  shows "quantum x = pow2 (e - 52)"
  using ilog2_unique[OF assms(1,2)] assms(3) by (simp add: quantum_def)

lemma quantum_subnormal:
  assumes "0 < \<bar>x\<bar>" "\<bar>x\<bar> < pow2 (- 1022)"
  shows "quantum x = pow2 (- 1074)"
proof -
  have "pow2 (ilog2 \<bar>x\<bar>) < pow2 (- 1022)"
    using ilog2_bounds(1)[OF assms(1)] assms(2) by linarith
  then have "ilog2 \<bar>x\<bar> < - 1022" by (simp add: pow2_less_iff)
  then show ?thesis by (simp add: quantum_def)
qed

lemma rnd_nearest:
  assumes "x \<noteq> 0" "quantum x = q" "\<bar>x - of_int m * q\<bar> < q / 2"
  shows "rnd x = of_int m * q"
proof -
  have q: "0 < q" using assms(2) pow2_pos by (auto simp: quantum_def)
  have "x / q - of_int m = (x - of_int m * q) / q" using q by (simp add: field_simps)
  then have "\<bar>x / q - of_int m\<bar> = \<bar>x - of_int m * q\<bar> / q" using q by (simp add: abs_divide)
  also have "\<dots> < 1 / 2" using assms(3) q by (simp add: field_simps)
  finally have "round_even (x / q) = m" by (rule round_even_unique)
  then show ?thesis using assms(1,2) by (simp add: rnd_def)
qed

lemma rnd_exact:
  assumes "x \<noteq> 0" "quantum x = q" "x = of_int m * q"
  shows "rnd x = x"
proof -
  have q: "0 < q" using assms(2) pow2_pos by (auto simp: quantum_def)
  have "rnd x = of_int m * q" using assms q by (intro rnd_nearest) auto
  then show ?thesis using assms(3) by simp
qed

lemma rnd_error_quantum: "\<bar>rnd x - x\<bar> \<le> quantum x / 2"
proof (cases "x = 0")
  case True
  then show ?thesis using pow2_pos by (simp add: rnd_def quantum_def less_imp_le)
next
  case False
  define q where "q = quantum x"
  have q: "0 < q" using pow2_pos by (simp add: q_def quantum_def)
  have "rnd x - x = (of_int (round_even (x / q)) - x / q) * q"
    using False q by (simp add: rnd_def q_def field_simps)
  then have "\<bar>rnd x - x\<bar> = \<bar>of_int (round_even (x / q)) - x / q\<bar> * q"
    using q by (simp add: abs_mult)
  also have "\<dots> \<le> 1 / 2 * q"
    using round_even_error[of "x / q"] q by (intro mult_right_mono) auto
  finally show ?thesis by (simp add: q_def)
qed

lemma rnd_error:
  assumes "pow2 (- 1022) \<le> \<bar>x\<bar>"
  shows "\<bar>rnd x - x\<bar> \<le> \<bar>x\<bar> * pow2 (- 53)"
proof -
  have x: "0 < \<bar>x\<bar>" using assms pow2_pos[of "- 1022"] by linarith
  define e where "e = ilog2 \<bar>x\<bar>"
  have b: "pow2 e \<le> \<bar>x\<bar>" "\<bar>x\<bar> < pow2 (e + 1)"
    using ilog2_bounds[OF x] by (simp_all add: e_def)
  have "pow2 (- 1022) < pow2 (e + 1)" using assms b(2) by linarith
  then have e: "- 1022 \<le> e" by (simp add: pow2_less_iff)
  have "quantum x / 2 = pow2 (e - 53)"
    using quantum_normal[OF b e] pow2_half[of "e - 52"] by simp
  also have "\<dots> = pow2 e * pow2 (- 53)" using pow2_add[of e "- 53"] by simp
  also have "\<dots> \<le> \<bar>x\<bar> * pow2 (- 53)"
    using b(1) pow2_pos[of "- 53"] by (intro mult_right_mono) auto
  finally show ?thesis using rnd_error_quantum[of x] by linarith
qed

lemma fl_zero: "fl 0 = Fin 0"
  using pow2_pos[of 1024] by (simp add: fl_def rnd_def)

lemma fl_finite:
  assumes "\<bar>rnd x\<bar> < pow2 1024" "0 \<le> x \<or> rnd x \<noteq> 0"
  shows "fl x = Fin (rnd x)"
  using assms by (auto simp add: fl_def Let_def)

lemma rnd_nonzero:
  assumes "pow2 (- 1022) \<le> \<bar>x\<bar>"
  shows "rnd x \<noteq> 0"
proof -
  have x: "0 < \<bar>x\<bar>" using assms pow2_pos[of "- 1022"] by linarith
  have "pow2 (- 53) \<le> pow2 (- 1)" by (rule pow2_mono) simp
  then have "pow2 (- 53) \<le> 1 / 2" by (simp add: pow2_def)
  then have "\<bar>x\<bar> * pow2 (- 53) \<le> \<bar>x\<bar> * (1 / 2)" by (intro mult_left_mono) auto
  with rnd_error[OF assms] x show ?thesis by linarith
qed

lemma num_div_pos: "0 < b \<Longrightarrow> num_div (Fin a) (Fin b) = fl (a / b)"
  by (simp add: fl_zero)

lemma fl_error:
  assumes "pow2 (- 1022) \<le> \<bar>x\<bar>" "\<bar>x\<bar> \<le> pow2 1023"
  shows "fl x = Fin (rnd x)" and "\<bar>rnd x - x\<bar> \<le> \<bar>x\<bar> * pow2 (- 53)"
proof -
  show e: "\<bar>rnd x - x\<bar> \<le> \<bar>x\<bar> * pow2 (- 53)" by (rule rnd_error[OF assms(1)])
  have "pow2 (- 53) \<le> pow2 (- 1)" by (rule pow2_mono) simp
  then have "pow2 (- 53) \<le> 1 / 2" by (simp add: pow2_def)
  then have "\<bar>x\<bar> * pow2 (- 53) \<le> \<bar>x\<bar> * (1 / 2)" by (intro mult_left_mono) auto
  with e have "\<bar>rnd x\<bar> \<le> 3 / 2 * \<bar>x\<bar>" by linarith
  also have "\<dots> \<le> 3 / 2 * pow2 1023" using assms(2) by simp
  also have "\<dots> < 2 * pow2 1023" using pow2_pos[of 1023] by simp
  also have "\<dots> = pow2 1024" using pow2_add[of 1023 1] by (simp add: pow2_def)
  finally show "fl x = Fin (rnd x)" using rnd_nonzero[OF assms(1)] by (intro fl_finite) simp_all
qed

section \<open>Properties of the hook, the wrapper and the findings\<close>

subsection \<open>useInView\<close>

lemma observer_callback_keeps: "v \<Longrightarrow> observer_callback es v"
  by (simp add: observer_callback_def split: list.splits)

lemma useInView_step_keeps: "isInView s \<Longrightarrow> isInView (useInView_step e s)"
  by (cases e) (simp_all add: observer_callback_keeps split: option.splits)

lemma useInView_trace_hd: "hd (useInView_trace es s) = isInView s"
  by (cases es) simp_all

lemma useInView_trace_cons: "\<exists>bs. useInView_trace es s = isInView s # bs"
  by (cases es) simp_all

lemma useInView_trace_true:
  "isInView s \<Longrightarrow> rises (useInView_trace es s) = 0 \<and> falls (useInView_trace es s) = 0"
proof (induction es arbitrary: s)
  case Nil
  then show ?case by simp
next
  case (Cons e es)
  from Cons.prems have k: "isInView (useInView_step e s)" by (rule useInView_step_keeps)
  obtain bs where bs: "useInView_trace es (useInView_step e s) = isInView (useInView_step e s) # bs"
    using useInView_trace_cons by blast
  from Cons.IH[OF k] bs k Cons.prems show ?case by simp
qed

lemma useInView_trace_any:
  "rises (useInView_trace es s) \<le> 1 \<and> falls (useInView_trace es s) = 0"
proof (induction es arbitrary: s)
  case Nil
  then show ?case by simp
next
  case (Cons e es)
  obtain bs where bs: "useInView_trace es (useInView_step e s) = isInView (useInView_step e s) # bs"
    using useInView_trace_cons by blast
  show ?case
  proof (cases "isInView (useInView_step e s)")
    case True
    from useInView_trace_true[OF True, of es] bs True show ?thesis by simp
  next
    case False
    then have "\<not> isInView s" using useInView_step_keeps by blast
    with Cons.IH[of "useInView_step e s"] bs False show ?thesis by simp
  qed
qed

text \<open>
  Claim C5. For every options argument (so every configured threshold) and every
  sequence of observer events, the flag \<^verbatim>\<open>isInView\<close> goes from false to true at most
  once and never from true to false: the trace of its values has at most one rise and
  no fall, and once it is true it is true after any further events, entries that report
  the element as not intersecting included.
\<close>

theorem useInView_flag_monotone:
  "rises (useInView_trace es (useInView opts el)) \<le> 1 \<and>
   falls (useInView_trace es (useInView opts el)) = 0 \<and>
   (isInView (foldl (\<lambda>s e. useInView_step e s) (useInView opts el) es) \<longrightarrow>
    isInView (foldl (\<lambda>s e. useInView_step e s) (useInView opts el) (es @ es')))"
proof -
  have keep: "isInView s \<Longrightarrow> isInView (foldl (\<lambda>s e. useInView_step e s) s es')" for s
    by (induction es' arbitrary: s) (simp_all add: useInView_step_keeps)
  show ?thesis using useInView_trace_any keep by simp
qed

theorem useInView_flag_monotone_witness:
  "isInView (foldl (\<lambda>s e. useInView_step e s) (useInView no_options True) [Entries [visible]]) \<and>
   isInView (foldl (\<lambda>s e. useInView_step e s) (useInView no_options True)
     ([Entries [visible]] @ [Entries [\<lparr>isIntersecting = False, intersectionRatio = 0\<rparr>]]))"
proof -
  have h: "isInView (foldl (\<lambda>s e. useInView_step e s) (useInView no_options True) [Entries [visible]])"
    by (simp add: useInView_def observer_callback_def visible_def)
  from useInView_flag_monotone[of "[Entries [visible]]" no_options True
      "[Entries [\<lparr>isIntersecting = False, intersectionRatio = 0\<rparr>]]"] h
  show ?thesis by blast
qed

subsection \<open>Reveal\<close>

text \<open>
  Claim C7. While the flag is false the style has opacity 0 and the transform of the
  configured direction: \<open>up\<close> is 60 pixels down, \<open>left\<close> is 60 pixels to the left
  (away from the right), \<open>right\<close> is 60 pixels to the right (away from the left),
  \<open>none\<close> is no displacement. Once the flag is true the style has opacity 1 and the
  zero translation, whatever the direction.
\<close>

theorem Reveal_style:
  "Reveal ''up'' False = \<lparr>opacity = 0, style_transform = Some (TranslateY 60)\<rparr> \<and>
   Reveal ''left'' False = \<lparr>opacity = 0, style_transform = Some (TranslateX (- 60))\<rparr> \<and>
   Reveal ''right'' False = \<lparr>opacity = 0, style_transform = Some (TranslateX 60)\<rparr> \<and>
   Reveal ''none'' False = \<lparr>opacity = 0, style_transform = Some (TranslateY 0)\<rparr> \<and>
   offset (TranslateY 60) = (0, 60) \<and>
   offset (TranslateX (- 60)) = (- 60, 0) \<and>
   offset (TranslateX 60) = (60, 0) \<and>
   offset (TranslateY 0) = (0, 0) \<and>
   Reveal direction True = \<lparr>opacity = 1, style_transform = Some (Translate 0 0)\<rparr> \<and>
   offset (Translate 0 0) = (0, 0)"
  by (simp add: Reveal_def transforms_def)

subsection \<open>Findings\<close>

text \<open>
  Claim C9. For every entry of the \<^verbatim>\<open>findings\<close> list the prefix expression passed to
  the Counter is the empty string: no label starts with a dollar sign.
\<close>

theorem Findings_prefix_empty: "\<forall>f \<in> set findings. Findings_prefix f = []"
  by (simp add: findings_def Findings_prefix_def char_at0_def)

theorem Findings_prefix_empty_witness:
  "\<lparr>f_number = Fin 20, f_suffix = ''M+'', f_label = ''GMV processed through Reacher''\<rparr> \<in> set findings \<and>
   Findings_prefix \<lparr>f_number = Fin 20, f_suffix = ''M+'', f_label = ''GMV processed through Reacher''\<rparr> = []"
proof -
  have m: "\<lparr>f_number = Fin 20, f_suffix = ''M+'', f_label = ''GMV processed through Reacher''\<rparr> \<in> set findings"
    by (simp add: findings_def)
  from Findings_prefix_empty m show ?thesis by blast
qed

text \<open>The expression itself is not constant: a label that starts with a dollar sign gets the prefix.\<close>

lemma Findings_prefix_dollar:
  "Findings_prefix \<lparr>f_number = Fin 20, f_suffix = ''M+'', f_label = ''$ GMV''\<rparr> = ''$''"
  by (simp add: Findings_prefix_def char_at0_def)

subsection \<open>Options\<close>






section \<open>The animators as state machines\<close>

subsection \<open>Typewriter\<close>

lemma Typewriter_cleanup_fields:
  "t_inView (Typewriter_cleanup s) = t_inView s"
  "t_started (Typewriter_cleanup s) = t_started s"
  "t_props (Typewriter_cleanup s) = t_props s"
  "t_mounted (Typewriter_cleanup s) = t_mounted s"
  "t_deps (Typewriter_cleanup s) = t_deps s"
  by (simp_all add: Typewriter_cleanup_def split: option.splits)

lemma Typewriter_deps_cleanup: "Typewriter_deps (Typewriter_cleanup s) = Typewriter_deps s"
  by (simp add: Typewriter_deps_def Typewriter_cleanup_fields)

lemma Typewriter_commit_idle:
  "\<not> t_mounted s \<or> Typewriter_deps s = t_deps s \<Longrightarrow> Typewriter_commit s = s"
  by (auto simp add: Typewriter_commit_def)

lemma Typewriter_commit_mounted: "t_mounted (Typewriter_commit s) = t_mounted s"
  by (simp add: Typewriter_commit_def Typewriter_effect_def Typewriter_cleanup_fields Let_def)

lemma Typewriter_commit_sync:
  assumes "t_started s \<or> \<not> t_inView s"
  shows "Typewriter_deps (Typewriter_commit s) = t_deps (Typewriter_commit s) \<or> \<not> t_mounted s"
proof (cases "t_mounted s \<and> Typewriter_deps s \<noteq> t_deps s")
  case True
  have "Typewriter_effect (Typewriter_cleanup s) = (Typewriter_cleanup s)\<lparr>t_cleanup := None\<rparr>"
    using assms by (auto simp add: Typewriter_effect_def Typewriter_cleanup_fields)
  then have "Typewriter_commit s = (Typewriter_cleanup s)\<lparr>t_cleanup := None, t_deps := Typewriter_deps s\<rparr>"
    using True by (simp add: Typewriter_commit_def)
  then show ?thesis
    using Typewriter_deps_cleanup[of s] by (simp add: Typewriter_deps_def)
next
  case False
  then show ?thesis by (auto simp add: Typewriter_commit_def)
qed

lemma Typewriter_commit_started:
  "t_started (Typewriter_commit s) \<or> \<not> t_inView (Typewriter_commit s) \<or>
   Typewriter_commit s = s"
  by (simp add: Typewriter_commit_def Typewriter_effect_def Typewriter_cleanup_fields Let_def)

lemma Typewriter_commit_stable:
  "Typewriter_commit (Typewriter_commit (Typewriter_commit s)) =
   Typewriter_commit (Typewriter_commit s)"
proof (cases "t_mounted s")
  case False
  then show ?thesis by (simp add: Typewriter_commit_idle)
next
  case True
  define s1 where "s1 = Typewriter_commit s"
  have m1: "t_mounted s1" using True by (simp add: s1_def Typewriter_commit_mounted)
  show ?thesis
  proof (cases "s1 = s")
    case True
    then have "Typewriter_commit s = s" by (simp add: s1_def)
    then show ?thesis by simp
  next
    case False
    then have "t_started s1 \<or> \<not> t_inView s1"
      using Typewriter_commit_started[of s] by (simp add: s1_def)
    from Typewriter_commit_sync[OF this] m1
    have "Typewriter_deps (Typewriter_commit s1) = t_deps (Typewriter_commit s1)" by simp
    then have "Typewriter_commit (Typewriter_commit s1) = Typewriter_commit s1"
      by (simp add: Typewriter_commit_idle)
    then show ?thesis by (simp add: s1_def)
  qed
qed

lemma Typewriter_run_append:
  "Typewriter_run (es @ es') s = Typewriter_run es' (Typewriter_run es s)"
  by (induction es arbitrary: s) simp_all

text \<open>The invariant of all schedules.\<close>

lemma short_list:
  assumes "length ts \<le> 1"
  shows "ts = [] \<or> (\<exists>k ms txt sp. ts = [Timeout k ms txt sp]) \<or>
         (\<exists>k ms txt i. ts = [Interval k ms txt i])"
proof (cases ts)
  case Nil
  then show ?thesis by simp
next
  case (Cons t ts')
  then have "ts = [t]" using assms by simp
  then show ?thesis by (cases t) simp_all
qed

lemma typewriter_inv_fields:
  "typewriter_inv (s\<lparr>t_inView := v\<rparr>) = typewriter_inv s"
  "typewriter_inv (s\<lparr>t_props := p\<rparr>) = typewriter_inv s"
  by (simp_all add: typewriter_inv_def cong: timer.case_cong)

lemma typewriter_inv_init: "typewriter_inv (Typewriter p)"
  by (simp add: typewriter_inv_def Typewriter_def Typewriter_effect_def)

lemma typewriter_inv_cleanup:
  assumes "typewriter_inv s"
  shows "typewriter_inv (Typewriter_cleanup s)" and "t_cleanup (Typewriter_cleanup s) = None"
proof -
  show "t_cleanup (Typewriter_cleanup s) = None"
    by (simp add: Typewriter_cleanup_def split: option.splits)
  from assms have "t_timers s = [] \<or> (\<exists>k ms txt sp. t_timers s = [Timeout k ms txt sp]) \<or>
      (\<exists>k ms txt i. t_timers s = [Interval k ms txt i])"
    by (simp add: typewriter_inv_def short_list)
  then show "typewriter_inv (Typewriter_cleanup s)"
    using assms
    by (auto simp add: typewriter_inv_def Typewriter_cleanup_def split: option.splits timer.splits)
qed

lemma typewriter_inv_effect:
  assumes "typewriter_inv s" "t_cleanup s = None" "t_mounted s"
  shows "typewriter_inv ((Typewriter_effect s)\<lparr>t_deps := (t_inView s, t_started s, d)\<rparr>)"
proof -
  from assms(1) have "t_timers s = [] \<or> (\<exists>k ms txt sp. t_timers s = [Timeout k ms txt sp]) \<or>
      (\<exists>k ms txt i. t_timers s = [Interval k ms txt i])"
    by (simp add: typewriter_inv_def short_list)
  then show ?thesis
    using assms
    by (auto simp add: typewriter_inv_def Typewriter_effect_def Let_def split: timer.splits)
qed

lemma typewriter_inv_commit: "typewriter_inv s \<Longrightarrow> typewriter_inv (Typewriter_commit s)"
proof (cases "t_mounted s \<and> Typewriter_deps s \<noteq> t_deps s")
  case False
  assume "typewriter_inv s"
  then show ?thesis using False by (auto simp add: Typewriter_commit_def)
next
  case True
  assume i: "typewriter_inv s"
  have d: "Typewriter_deps s =
    (t_inView (Typewriter_cleanup s), t_started (Typewriter_cleanup s), t_text (t_props s),
      t_speed (t_props s), t_delay (t_props s))"
    by (simp add: Typewriter_deps_def Typewriter_cleanup_fields)
  have "typewriter_inv ((Typewriter_effect (Typewriter_cleanup s))\<lparr>t_deps := Typewriter_deps s\<rparr>)"
    unfolding d using typewriter_inv_cleanup[OF i] True
    by (intro typewriter_inv_effect) (simp_all add: Typewriter_cleanup_fields)
  then show ?thesis using True by (simp add: Typewriter_commit_def)
qed

lemma typewriter_inv_fire:
  assumes "typewriter_inv s" "find (\<lambda>t. timer_id t = n) (t_timers s) = Some t"
  shows "typewriter_inv (Typewriter_fire t s)"
proof -
  from assms(1) have "t_timers s = [] \<or> (\<exists>k ms txt sp. t_timers s = [Timeout k ms txt sp]) \<or>
      (\<exists>k ms txt i. t_timers s = [Interval k ms txt i])"
    by (simp add: typewriter_inv_def short_list)
  with assms(2) have t: "t_timers s = [t]" by (auto split: if_splits)
  show ?thesis
    using assms(1) t by (cases t) (auto simp add: typewriter_inv_def Let_def)
qed

lemma typewriter_inv_step: "typewriter_inv s \<Longrightarrow> typewriter_inv (Typewriter_step e s)"
proof (cases e)
  case (T_Entries es)
  assume "typewriter_inv s"
  then show ?thesis using T_Entries by (simp add: typewriter_inv_fields)
next
  case T_Render
  assume "typewriter_inv s"
  then show ?thesis using T_Render by (simp add: typewriter_inv_commit)
next
  case (T_Fire n)
  assume "typewriter_inv s"
  then show ?thesis using T_Fire typewriter_inv_fire by (simp split: option.splits)
next
  case (T_Props p)
  assume i: "typewriter_inv s"
  then have "typewriter_inv (s\<lparr>t_props := p\<rparr>)" by (simp add: typewriter_inv_fields)
  then show ?thesis using T_Props i by (simp add: typewriter_inv_commit)
next
  case T_Unmount
  assume i: "typewriter_inv s"
  from typewriter_inv_cleanup[OF i]
  have "typewriter_inv ((Typewriter_cleanup s)\<lparr>t_mounted := False\<rparr>)"
    by (auto simp add: typewriter_inv_def split: timer.splits)
  then show ?thesis using T_Unmount i by simp
qed

lemma typewriter_inv_run: "typewriter_inv s \<Longrightarrow> typewriter_inv (Typewriter_run es s)"
  by (induction es arbitrary: s) (simp_all add: typewriter_inv_step)

lemma Typewriter_fire_started: "t_started (Typewriter_fire t s) = t_started s"
  by (cases t) (simp_all add: Let_def)

lemma typewriter_started_step: "t_started s \<Longrightarrow> t_started (Typewriter_step e s)"
  by (cases e)
     (simp_all add: Typewriter_commit_def Typewriter_effect_def Typewriter_cleanup_fields
      Typewriter_fire_started split: option.splits)

lemma typewriter_started_run: "t_started s \<Longrightarrow> t_started (Typewriter_run es s)"
  by (induction es arbitrary: s) (simp_all add: typewriter_started_step)

text \<open>The first render of a visible instance that has not started calls \<^verbatim>\<open>setTimeout\<close>.\<close>

lemma Typewriter_first_render:
  assumes "typewriter_inv s" "t_mounted s" "t_inView s" "\<not> t_started s"
  shows "Typewriter_step T_Render s =
           s\<lparr>t_started := True,
             t_timers := [Timeout 0 (t_delay (t_props s)) (t_text (t_props s)) (t_speed (t_props s))],
             t_next_id := 1, t_cleanup := Some 0, t_sequences := 1, t_deps := Typewriter_deps s\<rparr>"
proof -
  from assms(1,4) have n: "t_next_id s = 0" "t_sequences s = 0" "\<not> fst (t_deps s)"
    by (auto simp add: typewriter_inv_def)
  have t: "t_timers s = []"
  proof (cases "t_timers s")
    case Nil
    then show ?thesis .
  next
    case (Cons x xs)
    then have "x \<in> set (t_timers s)" by simp
    with assms(1) n(1) show ?thesis by (cases x) (auto simp add: typewriter_inv_def)
  qed
  have "fst (Typewriter_deps s)" using assms(3) by (simp add: Typewriter_deps_def)
  then have d: "Typewriter_deps s \<noteq> t_deps s" using n(3) by auto
  have c: "Typewriter_cleanup s = s\<lparr>t_cleanup := None\<rparr>"
    using t by (cases "t_cleanup s") (simp_all add: Typewriter_cleanup_def)
  show ?thesis
    using assms(2,3,4) d n t
    by (simp add: Typewriter_commit_def c Typewriter_effect_def Typewriter_deps_def)
qed

text \<open>
  Claim C4. Within one mount, whatever the observer delivers and however often,
  whenever React renders, whichever timers fire and whatever props arrive: the effect
  passes its guard, and so calls \<^verbatim>\<open>setTimeout\<close>, once if \<^verbatim>\<open>started\<close> is set and never
  otherwise; \<^verbatim>\<open>started\<close> is set exactly when a timer has been made; at most two timers are
  ever made (the timeout and the interval of its callback) and at most one is pending
  at a time, none before \<^verbatim>\<open>started\<close> is set; \<^verbatim>\<open>started\<close>, once set, stays set; and the
  first render of a visible instance that has not started sets \<^verbatim>\<open>started\<close> and the
  timeout with the delay, text and speed of that render.
\<close>

theorem Typewriter_one_sequence:
  "t_sequences (Typewriter_run es (Typewriter p)) =
     (if t_started (Typewriter_run es (Typewriter p)) then 1 else 0) \<and>
   (t_started (Typewriter_run es (Typewriter p)) \<longleftrightarrow>
      1 \<le> t_next_id (Typewriter_run es (Typewriter p))) \<and>
   t_next_id (Typewriter_run es (Typewriter p)) \<le> 2 \<and>
   length (t_timers (Typewriter_run es (Typewriter p))) \<le> 1 \<and>
   (\<not> t_started (Typewriter_run es (Typewriter p)) \<longrightarrow>
      t_timers (Typewriter_run es (Typewriter p)) = []) \<and>
   (t_started (Typewriter_run es (Typewriter p)) \<longrightarrow>
      t_started (Typewriter_run (es @ es') (Typewriter p))) \<and>
   (t_mounted (Typewriter_run es (Typewriter p)) \<and> t_inView (Typewriter_run es (Typewriter p)) \<and>
    \<not> t_started (Typewriter_run es (Typewriter p)) \<longrightarrow>
      t_started (Typewriter_run (es @ [T_Render]) (Typewriter p)) \<and>
      t_sequences (Typewriter_run (es @ [T_Render]) (Typewriter p)) = 1 \<and>
      t_timers (Typewriter_run (es @ [T_Render]) (Typewriter p)) =
        [Timeout 0 (t_delay (t_props (Typewriter_run es (Typewriter p))))
           (t_text (t_props (Typewriter_run es (Typewriter p))))
           (t_speed (t_props (Typewriter_run es (Typewriter p))))])"
proof -
  define s where "s = Typewriter_run es (Typewriter p)"
  have i: "typewriter_inv s"
    by (simp add: s_def typewriter_inv_run typewriter_inv_init)
  have a: "t_sequences s = (if t_started s then 1 else 0)" "t_started s \<longleftrightarrow> 1 \<le> t_next_id s"
    "t_next_id s \<le> 2" "length (t_timers s) \<le> 1"
    using i by (simp_all add: typewriter_inv_def)
  have b: "t_timers s = []" if "\<not> t_started s"
  proof (cases "t_timers s")
    case Nil
    then show ?thesis .
  next
    case (Cons x xs)
    then have "x \<in> set (t_timers s)" by simp
    with i that show ?thesis by (cases x) (auto simp add: typewriter_inv_def)
  qed
  have c: "t_started (Typewriter_run (es @ es') (Typewriter p))" if "t_started s"
    using typewriter_started_run[OF that, of es'] by (simp add: Typewriter_run_append s_def)
  have r: "Typewriter_run (es @ [T_Render]) (Typewriter p) = Typewriter_step T_Render s"
    by (simp add: Typewriter_run_append s_def)
  have d: "t_started (Typewriter_step T_Render s) \<and> t_sequences (Typewriter_step T_Render s) = 1 \<and>
    t_timers (Typewriter_step T_Render s) =
      [Timeout 0 (t_delay (t_props s)) (t_text (t_props s)) (t_speed (t_props s))]"
    if "t_mounted s \<and> t_inView s \<and> \<not> t_started s"
    using Typewriter_first_render[OF i, of] that by simp
  show ?thesis
    unfolding r s_def[symmetric] using a b c d by blast
qed

theorem Typewriter_one_sequence_witness:
  "t_mounted (Typewriter_run [T_Entries [visible], T_Entries [visible]] (Typewriter (Typewriter_props ''abc''))) \<and>
   t_inView (Typewriter_run [T_Entries [visible], T_Entries [visible]] (Typewriter (Typewriter_props ''abc''))) \<and>
   \<not> t_started (Typewriter_run [T_Entries [visible], T_Entries [visible]] (Typewriter (Typewriter_props ''abc''))) \<and>
   t_timers (Typewriter_run [T_Entries [visible], T_Entries [visible]] (Typewriter (Typewriter_props ''abc''))) = [] \<and>
   t_started (Typewriter_run ([T_Entries [visible], T_Entries [visible]] @ [T_Render])
     (Typewriter (Typewriter_props ''abc''))) \<and>
   t_timers (Typewriter_run ([T_Entries [visible], T_Entries [visible]] @ [T_Render])
     (Typewriter (Typewriter_props ''abc''))) = [Timeout 0 (Fin 500) ''abc'' (Fin 35)] \<and>
   t_started (Typewriter_run [T_Entries [visible], T_Render, T_Entries [visible]]
     (Typewriter (Typewriter_props ''abc''))) \<and>
   t_started (Typewriter_run ([T_Entries [visible], T_Render, T_Entries [visible]] @
       [T_Render, T_Entries [visible], T_Props (Typewriter_props ''xyz''), T_Render])
     (Typewriter (Typewriter_props ''abc''))) \<and>
   t_sequences (Typewriter_run [T_Entries [visible], T_Render, T_Entries [visible]]
     (Typewriter (Typewriter_props ''abc''))) = 1 \<and>
   length (t_timers (Typewriter_run [T_Entries [visible], T_Render, T_Entries [visible]]
     (Typewriter (Typewriter_props ''abc'')))) \<le> 1"
proof -
  have h: "t_mounted (Typewriter_run [T_Entries [visible], T_Entries [visible]] (Typewriter (Typewriter_props ''abc''))) \<and>
    t_inView (Typewriter_run [T_Entries [visible], T_Entries [visible]] (Typewriter (Typewriter_props ''abc''))) \<and>
    \<not> t_started (Typewriter_run [T_Entries [visible], T_Entries [visible]] (Typewriter (Typewriter_props ''abc'')))"
    and p: "t_props (Typewriter_run [T_Entries [visible], T_Entries [visible]] (Typewriter (Typewriter_props ''abc''))) =
      \<lparr>t_text = ''abc'', t_speed = Fin 35, t_delay = Fin 500\<rparr>"
    by (simp_all add: Typewriter_def Typewriter_props_def Typewriter_effect_def
        observer_callback_def visible_def)
  have g: "t_started (Typewriter_run [T_Entries [visible], T_Render, T_Entries [visible]]
     (Typewriter (Typewriter_props ''abc'')))"
    by (simp add: Typewriter_def Typewriter_props_def Typewriter_commit_def
        Typewriter_effect_def Typewriter_cleanup_def Typewriter_deps_def Let_def
        observer_callback_def visible_def)
  from Typewriter_one_sequence[of "[T_Entries [visible], T_Entries [visible]]"
      "Typewriter_props ''abc''" "[]"] h p
  have a: "t_timers (Typewriter_run [T_Entries [visible], T_Entries [visible]] (Typewriter (Typewriter_props ''abc''))) = [] \<and>
    t_started (Typewriter_run ([T_Entries [visible], T_Entries [visible]] @ [T_Render])
      (Typewriter (Typewriter_props ''abc''))) \<and>
    t_timers (Typewriter_run ([T_Entries [visible], T_Entries [visible]] @ [T_Render])
      (Typewriter (Typewriter_props ''abc''))) = [Timeout 0 (Fin 500) ''abc'' (Fin 35)]"
    by simp
  from Typewriter_one_sequence[of "[T_Entries [visible], T_Render, T_Entries [visible]]"
      "Typewriter_props ''abc''"
      "[T_Render, T_Entries [visible], T_Props (Typewriter_props ''xyz''), T_Render]"] g
  have b: "t_started (Typewriter_run ([T_Entries [visible], T_Render, T_Entries [visible]] @
       [T_Render, T_Entries [visible], T_Props (Typewriter_props ''xyz''), T_Render])
     (Typewriter (Typewriter_props ''abc''))) \<and>
   t_sequences (Typewriter_run [T_Entries [visible], T_Render, T_Entries [visible]]
     (Typewriter (Typewriter_props ''abc''))) = 1 \<and>
   length (t_timers (Typewriter_run [T_Entries [visible], T_Render, T_Entries [visible]]
     (Typewriter (Typewriter_props ''abc'')))) \<le> 1"
    by simp
  from h g a b show ?thesis by blast
qed

text \<open>The settled schedules.\<close>

lemma typewriter_settled_init: "typewriter_settled (Typewriter p)"
  by (simp add: typewriter_settled_def Typewriter_def Typewriter_effect_def Typewriter_deps_def)

lemma typewriter_settled_commit: "typewriter_settled s \<Longrightarrow> Typewriter_commit s = s"
  by (intro Typewriter_commit_idle) (auto simp add: typewriter_settled_def)

lemma typewriter_settled_entries:
  assumes "typewriter_settled s" "t_mounted s"
  shows "typewriter_settled
    (Typewriter_commit (Typewriter_commit (s\<lparr>t_inView := observer_callback es (t_inView s)\<rparr>)))"
  using assms
  by (cases "observer_callback es (t_inView s)")
     (auto simp add: typewriter_settled_def Typewriter_commit_def
      Typewriter_effect_def Typewriter_cleanup_def Typewriter_deps_def Let_def
      observer_callback_keeps)

lemma typewriter_settled_props:
  assumes "typewriter_settled s" "t_mounted s"
  shows "typewriter_settled (Typewriter_commit (Typewriter_commit (s\<lparr>t_props := p\<rparr>)))"
  using assms
  by (auto simp add: typewriter_settled_def Typewriter_commit_def
      Typewriter_effect_def Typewriter_cleanup_def Typewriter_deps_def Let_def)

lemma typewriter_settled_step:
  assumes "typewriter_settled s"
  shows "typewriter_settled (Typewriter_commit (Typewriter_commit (Typewriter_step e s)))"
proof (cases e)
  case (T_Entries es)
  then show ?thesis
    using assms typewriter_settled_entries[OF assms] typewriter_settled_commit[OF assms] by simp
next
  case T_Render
  then show ?thesis using assms typewriter_settled_commit[OF assms] by simp
next
  case (T_Fire n)
  have "t_timers s = []" using assms by (simp add: typewriter_settled_def)
  then show ?thesis using T_Fire assms typewriter_settled_commit[OF assms] by simp
next
  case (T_Props p)
  then show ?thesis
    using assms typewriter_settled_props[OF assms] typewriter_settled_commit[OF assms]
    by (simp add: Typewriter_commit_stable)
next
  case T_Unmount
  have "typewriter_settled ((Typewriter_cleanup s)\<lparr>t_mounted := False\<rparr>)"
    using assms by (simp add: typewriter_settled_def Typewriter_cleanup_def)
  then show ?thesis
    using T_Unmount assms typewriter_settled_commit[OF assms] typewriter_settled_commit by simp
qed

lemma typewriter_settled_run:
  "typewriter_settled s \<Longrightarrow> typewriter_settled (Typewriter_run (settled es) s)"
  by (induction es arbitrary: s) (simp_all add: typewriter_settled_step)

text \<open>
  Claim C6. The component is to reveal \<^verbatim>\<open>text\<close> one character per tick and to show all
  of it after the delay and one tick per character. It does not: \<^verbatim>\<open>setStarted(true)\<close>
  changes a dependency of the effect, so the render that follows runs the cleanup
  \<^verbatim>\<open>clearTimeout(timeout)\<close> of the run that has just set the timer, and the new run
  returns at the guard. Whenever React renders before the next event, as it does when
  the timeout has its default delay of 500 ms, the displayed string is empty and no
  timer is pending after any events.
\<close>

theorem Typewriter_never_reveals:
  "t_displayed (Typewriter_run (settled es) (Typewriter p)) = [] \<and>
   t_timers (Typewriter_run (settled es) (Typewriter p)) = []"
  using typewriter_settled_run[OF typewriter_settled_init, of es p]
  by (simp add: typewriter_settled_def)

text \<open>
  The same at \<^verbatim>\<open>text = "abc"\<close> with the default speed and delay: the element becomes
  visible, the first render sets the timeout, the second clears it, and the host has
  no timer left to fire.
\<close>

lemma Typewriter_abc:
  "t_timers (Typewriter_run [T_Entries [visible], T_Render] (Typewriter (Typewriter_props ''abc''))) =
     [Timeout 0 (Fin 500) ''abc'' (Fin 35)] \<and>
   t_timers (Typewriter_run [T_Entries [visible], T_Render, T_Render]
      (Typewriter (Typewriter_props ''abc''))) = [] \<and>
   t_started (Typewriter_run [T_Entries [visible], T_Render, T_Render]
      (Typewriter (Typewriter_props ''abc''))) \<and>
   t_displayed (Typewriter_run [T_Entries [visible], T_Render, T_Render, T_Fire 0, T_Fire 1, T_Fire 1, T_Fire 1]
      (Typewriter (Typewriter_props ''abc''))) = []"
  by (simp add: Typewriter_def Typewriter_props_def Typewriter_commit_def
      Typewriter_effect_def Typewriter_cleanup_def Typewriter_deps_def Let_def
      observer_callback_def visible_def)

text \<open>
  The interval callback itself does what the component is for: each firing shows one
  more character of the text and the firing that shows the last one clears the
  interval.
\<close>

lemma Typewriter_interval_reveals:
  assumes "t_timers s = [Interval j ms txt i]"
  shows "t_displayed (Typewriter_step (T_Fire j) s) = take (Suc i) txt \<and>
         t_timers (Typewriter_step (T_Fire j) s) =
           (if length txt \<le> Suc i then [] else [Interval j ms txt (Suc i)])"
  using assms by simp

text \<open>
  In every state of every schedule a pending timeout is doomed: a render is due, and it
  clears the timeout and sets no other timer. Nothing is displayed unless the timeout
  has fired.
\<close>

lemma Typewriter_timeout_doomed:
  assumes "t_timers (Typewriter_run es (Typewriter p)) = [Timeout k ms txt sp]"
  shows "t_timers (Typewriter_run (es @ [T_Render]) (Typewriter p)) = []"
proof -
  define s where "s = Typewriter_run es (Typewriter p)"
  have i: "typewriter_inv s" by (simp add: s_def typewriter_inv_run typewriter_inv_init)
  have t: "t_timers s = [Timeout k ms txt sp]" using assms by (simp add: s_def)
  from i t have f: "k = 0" "t_cleanup s = Some 0" "t_mounted s" "\<not> fst (snd (t_deps s))"
    "t_started s"
    by (simp_all add: typewriter_inv_def)
  have "fst (snd (Typewriter_deps s))" using f(5) by (simp add: Typewriter_deps_def)
  then have d: "Typewriter_deps s \<noteq> t_deps s" using f(4) by auto
  have "t_timers (Typewriter_commit s) = []"
    using f t d by (simp add: Typewriter_commit_def Typewriter_effect_def Typewriter_cleanup_def)
  then show ?thesis by (simp add: Typewriter_run_append s_def)
qed

lemma Typewriter_reveal_needs_fire:
  assumes "t_displayed (Typewriter_run es (Typewriter p)) \<noteq> []"
  shows "t_next_id (Typewriter_run es (Typewriter p)) = 2"
proof -
  have "typewriter_inv (Typewriter_run es (Typewriter p))"
    by (simp add: typewriter_inv_run typewriter_inv_init)
  then show ?thesis using assms by (auto simp add: typewriter_inv_def)
qed

text \<open>
  The text is revealed only when the timeout fires before the render that
  \<^verbatim>\<open>setStarted(true)\<close> has requested, which a delay of 0 allows: the cleanup of that
  render then finds the timeout gone, and the interval that its callback has made is
  known to no cleanup.
\<close>

lemma Typewriter_race_reveals:
  "t_displayed (Typewriter_run [T_Entries [visible], T_Render, T_Fire 0, T_Render, T_Fire 1, T_Fire 1, T_Fire 1]
      (Typewriter \<lparr>t_text = ''abc'', t_speed = Fin 35, t_delay = Fin 0\<rparr>)) = ''abc'' \<and>
   t_timers (Typewriter_run [T_Entries [visible], T_Render, T_Fire 0, T_Render, T_Fire 1, T_Fire 1, T_Fire 1]
      (Typewriter \<lparr>t_text = ''abc'', t_speed = Fin 35, t_delay = Fin 0\<rparr>)) = []"
  by (simp add: Typewriter_def Typewriter_commit_def
      Typewriter_effect_def Typewriter_cleanup_def Typewriter_deps_def Let_def
      observer_callback_def visible_def)

subsection \<open>Counter\<close>

text \<open>The effect of a Counter sets no state, so one render settles.\<close>

lemma Counter_render_stable: "Counter_render (Counter_render s) = Counter_render s"
  by (simp add: Counter_render_def Counter_effect_def Counter_cleanup_def Counter_deps_def Let_def
      split: option.splits)

lemma filter_covered:
  "\<forall>t \<in> set ts. c = iv_id t \<Longrightarrow> filter (\<lambda>t. iv_id t \<noteq> c) ts = []"
  by (induction ts) auto

lemma counter_cleanup_timers:
  "counter_inv s \<Longrightarrow> c_timers (Counter_cleanup s) = []"
  by (cases "c_cleanup s") (auto simp add: counter_inv_def Counter_cleanup_def filter_covered)

lemma counter_inv_render: "counter_inv s \<Longrightarrow> counter_inv (Counter_render s)"
proof -
  assume i: "counter_inv s"
  show ?thesis
  proof (cases "c_mounted s \<and> Counter_deps s \<noteq> c_deps s")
    case True
    have m: "c_mounted (Counter_cleanup s)" using True
      by (simp add: Counter_cleanup_def split: option.splits)
    then show ?thesis using True counter_cleanup_timers[OF i]
      by (simp add: Counter_render_def Counter_effect_def counter_inv_def Let_def)
  next
    case False
    then show ?thesis using i by (auto simp add: Counter_render_def)
  qed
qed

lemma counter_inv_tick:
  "counter_inv s \<Longrightarrow> counter_inv (Counter_tick t s)"
  by (auto simp add: counter_inv_def Counter_tick_def Let_def)

lemma counter_inv_init: "counter_inv (Counter p)"
  by (simp add: counter_inv_def Counter_def Counter_effect_def)

lemma counter_inv_step: "counter_inv s \<Longrightarrow> counter_inv (Counter_step e s)"
proof (cases e)
  case (C_Entries es)
  assume i: "counter_inv s"
  have "counter_inv (s\<lparr>c_inView := observer_callback es (c_inView s)\<rparr>)"
    using i by (simp add: counter_inv_def)
  then show ?thesis using C_Entries i counter_inv_render by simp
next
  case (C_Fire n)
  assume i: "counter_inv s"
  then show ?thesis using C_Fire counter_inv_render counter_inv_tick
    by (simp split: option.splits)
next
  case (C_Props p)
  assume i: "counter_inv s"
  have "counter_inv (s\<lparr>c_props := p\<rparr>)" using i by (simp add: counter_inv_def)
  then show ?thesis using C_Props i counter_inv_render by simp
next
  case C_Unmount
  assume i: "counter_inv s"
  then show ?thesis using C_Unmount counter_cleanup_timers[OF i]
    by (simp add: counter_inv_def)
qed

lemma counter_inv_run: "counter_inv s \<Longrightarrow> counter_inv (Counter_run es s)"
  by (induction es arbitrary: s) (simp_all add: counter_inv_step)

lemma Counter_run_append:
  "Counter_run (es @ es') s = Counter_run es' (Counter_run es s)"
  by (induction es arbitrary: s) simp_all

lemma counter_unmounted_step: "\<not> c_mounted s \<Longrightarrow> \<not> c_mounted (Counter_step e s)"
  by (cases e) (auto simp add: Counter_render_def Counter_tick_def Let_def split: option.splits)

lemma counter_unmounted_run: "\<not> c_mounted s \<Longrightarrow> \<not> c_mounted (Counter_run es s)"
  by (induction es arbitrary: s) (simp_all add: counter_unmounted_step)

lemma counter_unmount_unmounted: "\<not> c_mounted (Counter_step C_Unmount s)"
  by (simp add: Counter_cleanup_def split: option.splits)

text \<open>
  An unmount at any point of any run of a Counter leaves the instance without a
  pending timer, and none appears afterwards.
\<close>

lemma Counter_unmount_cancels:
  "c_timers (Counter_run (es @ C_Unmount # es') (Counter p)) = []"
proof -
  have "counter_inv (Counter_run (es @ C_Unmount # es') (Counter p))"
    by (simp add: counter_inv_run counter_inv_init)
  moreover have "\<not> c_mounted (Counter_run (es @ C_Unmount # es') (Counter p))"
    using counter_unmounted_run[OF counter_unmount_unmounted]
    by (simp add: Counter_run_append)
  ultimately show ?thesis by (simp add: counter_inv_def)
qed

text \<open>A Counter unmounted while its interval is pending: the cleanup clears it.\<close>

lemma Counter_unmount_mid_run:
  "c_timers (Counter_visible p) \<noteq> [] \<and>
   c_timers (Counter_step C_Unmount (Counter_visible p)) = []"
  by (simp add: Counter_visible_def Counter_def Counter_effect_def Counter_render_def
      Counter_cleanup_def Counter_deps_def Let_def observer_callback_def visible_def)

text \<open>
  A Typewriter unmounted during the delay: the pending timeout is the one that the
  registered cleanup clears, in every state of every schedule.
\<close>

lemma Typewriter_unmount_delay_phase:
  assumes "t_timers (Typewriter_run es (Typewriter p)) = [Timeout k ms txt sp]"
  shows "t_timers (Typewriter_run (es @ [T_Unmount]) (Typewriter p)) = []"
proof -
  have "typewriter_inv (Typewriter_run es (Typewriter p))"
    by (simp add: typewriter_inv_run typewriter_inv_init)
  then show ?thesis
    using assms by (simp add: Typewriter_run_append typewriter_inv_def Typewriter_cleanup_def)
qed

text \<open>
  A Typewriter unmounted during the reveal: in every state of every schedule the
  cleanup that React holds is none or \<^verbatim>\<open>() => clearTimeout(timeout)\<close>; the function
  \<^verbatim>\<open>() => clearInterval(interval)\<close> is returned to \<^verbatim>\<open>setTimeout\<close>, which drops it. The
  unmount leaves the interval pending.
\<close>

lemma Typewriter_unmount_reveal_phase:
  assumes "t_timers (Typewriter_run es (Typewriter p)) = [Interval k ms txt i]"
  shows "t_timers (Typewriter_run (es @ [T_Unmount]) (Typewriter p)) = [Interval k ms txt i]"
proof -
  have "typewriter_inv (Typewriter_run es (Typewriter p))"
    by (simp add: typewriter_inv_run typewriter_inv_init)
  then show ?thesis
    using assms
    by (auto simp add: Typewriter_run_append typewriter_inv_def Typewriter_cleanup_def)
qed

text \<open>
  Claim C3. Every timer of an instance is to be cancelled by an unmount, in the delay
  and in the reveal phase of a Typewriter as during the ticking of a Counter. The
  Typewriter does not cancel the interval of its reveal phase. With \<^verbatim>\<open>text = "abc"\<close>, the
  default speed and \<^verbatim>\<open>delay = 0\<close>: the element becomes visible, the render sets the
  timeout, the timeout fires and sets the interval, the requested render follows, and
  the first tick displays \<^verbatim>\<open>"a"\<close>. The unmount then runs no cleanup and leaves the
  interval pending; its callback fires after the unmount, twice, until it has reached
  the end of the text and clears the interval itself.
\<close>

theorem unmount_leaves_interval:
  "t_mounted (Typewriter_run [T_Entries [visible], T_Render, T_Fire 0, T_Render, T_Fire 1]
      (Typewriter \<lparr>t_text = ''abc'', t_speed = Fin 35, t_delay = Fin 0\<rparr>)) \<and>
   t_displayed (Typewriter_run [T_Entries [visible], T_Render, T_Fire 0, T_Render, T_Fire 1]
      (Typewriter \<lparr>t_text = ''abc'', t_speed = Fin 35, t_delay = Fin 0\<rparr>)) = ''a'' \<and>
   t_timers (Typewriter_run [T_Entries [visible], T_Render, T_Fire 0, T_Render, T_Fire 1]
      (Typewriter \<lparr>t_text = ''abc'', t_speed = Fin 35, t_delay = Fin 0\<rparr>)) =
     [Interval 1 (Fin 35) ''abc'' 1] \<and>
   \<not> t_mounted (Typewriter_run [T_Entries [visible], T_Render, T_Fire 0, T_Render, T_Fire 1, T_Unmount]
      (Typewriter \<lparr>t_text = ''abc'', t_speed = Fin 35, t_delay = Fin 0\<rparr>)) \<and>
   t_timers (Typewriter_run [T_Entries [visible], T_Render, T_Fire 0, T_Render, T_Fire 1, T_Unmount]
      (Typewriter \<lparr>t_text = ''abc'', t_speed = Fin 35, t_delay = Fin 0\<rparr>)) =
     [Interval 1 (Fin 35) ''abc'' 1] \<and>
   t_timers (Typewriter_run [T_Entries [visible], T_Render, T_Fire 0, T_Render, T_Fire 1, T_Unmount, T_Fire 1]
      (Typewriter \<lparr>t_text = ''abc'', t_speed = Fin 35, t_delay = Fin 0\<rparr>)) =
     [Interval 1 (Fin 35) ''abc'' 2] \<and>
   t_displayed (Typewriter_run [T_Entries [visible], T_Render, T_Fire 0, T_Render, T_Fire 1, T_Unmount, T_Fire 1]
      (Typewriter \<lparr>t_text = ''abc'', t_speed = Fin 35, t_delay = Fin 0\<rparr>)) = ''ab'' \<and>
   t_timers (Typewriter_run [T_Entries [visible], T_Render, T_Fire 0, T_Render, T_Fire 1, T_Unmount, T_Fire 1, T_Fire 1]
      (Typewriter \<lparr>t_text = ''abc'', t_speed = Fin 35, t_delay = Fin 0\<rparr>)) = []"
  by (simp add: Typewriter_def Typewriter_commit_def
      Typewriter_effect_def Typewriter_cleanup_def Typewriter_deps_def Let_def
      observer_callback_def visible_def)

subsection \<open>The run of a visible Counter\<close>

lemma Counter_visible_running: "Counter_visible p = Counter_running p (Fin 0) (Fin 0) 0"
  by (simp add: Counter_visible_def Counter_def Counter_effect_def Counter_render_def
      Counter_cleanup_def Counter_deps_def Counter_running_def Counter_step_size_def Let_def
      observer_callback_def visible_def)

lemma Counter_fire_running:
  "Counter_step (C_Fire 0) (Counter_running p a c n) =
     (if num_ge (num_add a (Counter_step_size p)) (c_end p) then Counter_done p (Suc n)
      else Counter_running p (num_add a (Counter_step_size p))
             (num_floor (num_add a (Counter_step_size p))) (Suc n))"
  by (simp add: Counter_running_def Counter_done_def Counter_tick_def Counter_render_def
      Counter_deps_def Let_def)

lemma Counter_fire_done: "Counter_step (C_Fire 0) (Counter_done p n) = Counter_done p n"
  by (simp add: Counter_done_def)

lemma Counter_after_Suc: "Counter_after p (Suc n) = Counter_step (C_Fire 0) (Counter_after p n)"
proof -
  have "replicate (Suc n) (C_Fire 0) = replicate n (C_Fire 0) @ [C_Fire 0]"
    by (simp add: replicate_append_same)
  then show ?thesis by (simp add: Counter_after_def Counter_run_append del: replicate.simps)
qed

lemma Counter_after_0: "Counter_after p 0 = Counter_visible p"
  by (simp add: Counter_after_def)

text \<open>While the comparison fails the interval keeps running.\<close>

lemma Counter_after_running:
  assumes "\<forall>j. 1 \<le> j \<and> j \<le> n \<longrightarrow> \<not> num_ge (Counter_start (Counter_step_size p) j) (c_end p)"
  shows "Counter_after p n =
           Counter_running p (Counter_start (Counter_step_size p) n)
             (num_floor (Counter_start (Counter_step_size p) n)) n"
  using assms
proof (induction n)
  case 0
  then show ?case by (simp add: Counter_after_0 Counter_visible_running)
next
  case (Suc n)
  have "Counter_after p n =
           Counter_running p (Counter_start (Counter_step_size p) n)
             (num_floor (Counter_start (Counter_step_size p) n)) n"
    using Suc by simp
  moreover have "\<not> num_ge (num_add (Counter_start (Counter_step_size p) n) (Counter_step_size p)) (c_end p)"
    using Suc.prems[rule_format, of "Suc n"] by simp
  ultimately show ?case
    by (simp add: Counter_after_Suc Counter_fire_running del: Counter_step.simps)
qed

lemma Counter_after_done_later:
  "Counter_after p k = Counter_done p m \<Longrightarrow> Counter_after p (k + n) = Counter_done p m"
  by (induction n) (simp_all add: Counter_after_Suc Counter_fire_done del: Counter_step.simps)

text \<open>The first tick at which the comparison holds clears the interval.\<close>

lemma Counter_after_done:
  assumes "\<forall>j. 1 \<le> j \<and> j \<le> k \<longrightarrow> \<not> num_ge (Counter_start (Counter_step_size p) j) (c_end p)"
    and "num_ge (Counter_start (Counter_step_size p) (Suc k)) (c_end p)"
    and "Suc k \<le> n"
  shows "Counter_after p n = Counter_done p (Suc k)"
proof -
  have "Counter_after p (Suc k) = Counter_done p (Suc k)"
    using Counter_after_running[OF assms(1)] assms(2)
    by (simp add: Counter_after_Suc Counter_fire_running del: Counter_step.simps)
  from Counter_after_done_later[OF this, of "n - Suc k"] assms(3) show ?thesis by simp
qed


section \<open>Rounding of dyadic values\<close>

lemma round_even_div:
  assumes "0 < p"
  shows "round_even (of_int M / of_int p) = round_even_div M p"
proof -
  have fl: "\<lfloor>(of_int M :: rat) / of_int p\<rfloor> = M div p"
    by (simp add: floor_divide_of_int_eq)
  have "(of_int M :: rat) = of_int (M div p) * of_int p + of_int (M mod p)"
    by (metis mult.commute of_int_add of_int_mult mult_div_mod_eq)
  then have fr: "(of_int M :: rat) / of_int p - of_int (M div p) = of_int (M mod p) / of_int p"
    using assms by (simp add: field_simps)
  have a: "(of_int (M mod p) / of_int p < (1::rat) / 2) = (2 * (M mod p) < p)"
  proof -
    have "(of_int (M mod p) / of_int p < (1::rat) / 2) = ((of_int (2 * (M mod p)) :: rat) < of_int p)"
      using assms by (simp add: field_simps)
    then show ?thesis by (simp only: of_int_less_iff)
  qed
  have b: "((1::rat) / 2 < of_int (M mod p) / of_int p) = (p < 2 * (M mod p))"
  proof -
    have "((1::rat) / 2 < of_int (M mod p) / of_int p) = ((of_int p :: rat) < of_int (2 * (M mod p)))"
      using assms by (simp add: field_simps)
    then show ?thesis by (simp only: of_int_less_iff)
  qed
  show ?thesis
    unfolding round_even_def round_even_div_def Let_def fl fr a b ..
qed

lemma pow2_nonneg_int: "0 \<le> n \<Longrightarrow> pow2 n = of_int (2 ^ nat n)"
  by (simp add: pow2_def)

lemma rnd_dyadic:
  assumes M: "0 < M" and e: "- 1074 \<le> e"
  shows "rnd (of_int M * pow2 e) = of_int (rnd_int M) * pow2 e"
proof -
  define x where "x = of_int M * pow2 e"
  define b where "b = bitlen M"
  have x: "0 < x" using M pow2_pos[of e] by (simp add: x_def)
  have b: "0 < b" using bitlen_pos[OF M] by (simp add: b_def)
  from bitlen_bounds[OF M] have "2 ^ nat (b - 1) \<le> M" "M < 2 ^ nat b" by (simp_all add: b_def)
  then have "(of_int (2 ^ nat (b - 1)) :: rat) \<le> of_int M" "(of_int M :: rat) < of_int (2 ^ nat b)"
    by (simp_all only: of_int_le_iff of_int_less_iff)
  then have Mb: "pow2 (b - 1) \<le> of_int M" "of_int M < pow2 b"
    using b by (simp_all add: pow2_nonneg_int)
  have lo: "pow2 (b - 1 + e) \<le> x"
    using Mb(1) pow2_pos[of e] by (simp add: x_def pow2_add)
  have hi: "x < pow2 (b - 1 + e + 1)"
    using Mb(2) pow2_pos[of e] pow2_add[of b e] by (simp add: x_def)
  have ax: "\<bar>x\<bar> = x" using x by simp
  show ?thesis
  proof (cases "- 1022 \<le> b - 1 + e")
    case True
    have "quantum x = pow2 (b - 1 + e - 52)"
      using lo hi True ax by (intro quantum_normal) simp_all
    moreover have "b - 1 + e - 52 = b - 53 + e" by simp
    ultimately have q: "quantum x = pow2 (b - 53 + e)" by (simp only:)
    show ?thesis
    proof (cases "b - 53 \<le> 0")
      case k: True
      have "pow2 e = pow2 (53 - b) * pow2 (b - 53 + e)" using pow2_add[of "53 - b" "b - 53 + e"] by simp
      also have "pow2 (53 - b) = of_int (2 ^ nat (53 - b))" using k by (simp add: pow2_nonneg_int)
      finally have "x = of_int (M * 2 ^ nat (53 - b)) * pow2 (b - 53 + e)"
        by (simp add: x_def)
      from rnd_exact[OF _ q this] x have "rnd x = x" by simp
      then show ?thesis using k by (simp add: rnd_int_def b_def x_def)
    next
      case k: False
      have p: "pow2 (b - 53) = of_int (2 ^ nat (b - 53))" using k by (simp add: pow2_nonneg_int)
      have "x / quantum x = x / (pow2 (b - 53) * pow2 e)"
        using pow2_add[of "b - 53" e] by (simp add: q)
      also have "\<dots> = of_int M / of_int (2 ^ nat (b - 53))"
        using pow2_pos[of e] by (simp add: p x_def)
      finally have "round_even (x / quantum x) = round_even_div M (2 ^ nat (b - 53))"
        by (simp only: round_even_div[of "2 ^ nat (b - 53)" M, OF zero_less_power[OF zero_less_numeral]])
      then have "rnd x = of_int (round_even_div M (2 ^ nat (b - 53))) * (pow2 (b - 53) * pow2 e)"
        using x pow2_add[of "b - 53" e] by (simp add: rnd_def q)
      then show ?thesis using k by (simp add: rnd_int_def b_def[symmetric] x_def[symmetric] p Let_def)
    qed
  next
    case False
    have "x < pow2 (- 1022)"
    proof -
      have "pow2 (b - 1 + e + 1) \<le> pow2 (- 1022)" using False by (intro pow2_mono) simp
      with hi show ?thesis by linarith
    qed
    then have q: "quantum x = pow2 (- 1074)" using quantum_subnormal[of x] x ax by simp
    have "pow2 e = pow2 (e + 1074) * pow2 (- 1074)" using pow2_add[of "e + 1074" "- 1074"] by simp
    also have "pow2 (e + 1074) = of_int (2 ^ nat (e + 1074))" using e by (simp add: pow2_nonneg_int)
    finally have "x = of_int (M * 2 ^ nat (e + 1074)) * pow2 (- 1074)"
      by (simp add: x_def)
    from rnd_exact[OF _ q this] x have "rnd x = x" by simp
    moreover have "b - 53 \<le> 0" using False e by simp
    ultimately show ?thesis by (simp add: rnd_int_def b_def x_def)
  qed
qed

lemma round_even_div_nonneg: "0 \<le> M \<Longrightarrow> 0 < p \<Longrightarrow> 0 \<le> round_even_div M p"
  by (simp add: round_even_div_def Let_def pos_imp_zdiv_nonneg_iff)

lemma rnd_int_nonneg: "0 \<le> M \<Longrightarrow> 0 \<le> rnd_int M"
  by (simp add: rnd_int_def Let_def round_even_div_nonneg)

lemma pow2_le_one: "e \<le> 0 \<Longrightarrow> pow2 e \<le> 1"
  using pow2_mono[of e 0] by (simp add: pow2_def)

lemma fl_dyadic:
  assumes "0 < M" "- 1074 \<le> e" "e \<le> 0" "rnd_int M < 2 ^ 1000"
  shows "fl (of_int M * pow2 e) = Fin (of_int (rnd_int M) * pow2 e)"
proof -
  have r: "rnd (of_int M * pow2 e) = of_int (rnd_int M) * pow2 e"
    using assms(1,2) by (rule rnd_dyadic)
  have n: "(0::rat) \<le> of_int (rnd_int M)" using rnd_int_nonneg[of M] assms(1) by simp
  then have "of_int (rnd_int M) * pow2 e \<le> of_int (rnd_int M) * 1"
    using pow2_le_one[OF assms(3)] by (intro mult_left_mono) auto
  also have "(of_int (rnd_int M) :: rat) < of_int (2 ^ 1000)"
    using assms(4) by (simp only: of_int_less_iff)
  also have "(of_int (2 ^ 1000) :: rat) \<le> pow2 1024"
    by (simp add: pow2_def)
  finally have "of_int (rnd_int M) * pow2 e < pow2 1024" by simp
  moreover have "0 \<le> of_int (rnd_int M) * pow2 e" using n pow2_pos[of e] by simp
  ultimately have b: "\<bar>rnd (of_int M * pow2 e)\<bar> < pow2 1024" by (simp add: r)
  have "0 \<le> of_int M * pow2 e" using assms(1) pow2_pos[of e] by simp
  then have "0 \<le> of_int M * pow2 e \<or> rnd (of_int M * pow2 e) \<noteq> 0" by simp
  from fl_finite[OF b this] r show ?thesis by simp
qed

lemma num_add_dy:
  assumes "0 \<le> A" "0 < T" "- 1074 \<le> e" "e \<le> 0" "rnd_int (A + T) < 2 ^ 1000"
  shows "num_add (dy A e) (dy T e) = dy (rnd_int (A + T)) e"
proof -
  have "of_int A * pow2 e + of_int T * pow2 e = of_int (A + T) * pow2 e"
    by (simp add: algebra_simps)
  moreover have "0 < A + T" using assms(1,2) by simp
  ultimately show ?thesis
    using fl_dyadic[of "A + T" e] assms(3,4,5) by (simp add: dy_def)
qed

lemma num_ge_dy: "num_ge (dy A e) (dy B e) = (B \<le> A)"
  using pow2_pos[of e] by (simp add: dy_def)

lemma irun_correct:
  assumes "irun T E f A = Some K" "0 \<le> A" "0 < T" "- 1074 \<le> e" "e \<le> 0"
    and "Counter_start (dy T e) m = dy A e"
  shows "1 \<le> K \<and>
         (\<forall>j. m < j \<and> j < m + K \<longrightarrow> \<not> num_ge (Counter_start (dy T e) j) (dy E e)) \<and>
         num_ge (Counter_start (dy T e) (m + K)) (dy E e)"
  using assms
proof (induction f arbitrary: A m K)
  case 0
  then show ?case by simp
next
  case (Suc f)
  define A' where "A' = rnd_int (A + T)"
  have ok: "A' < 2 ^ 1000" using Suc.prems(1) by (auto simp add: A'_def Let_def split: if_splits)
  have nx: "Counter_start (dy T e) (Suc m) = dy A' e"
    using num_add_dy[of A T e] Suc.prems ok by (simp add: A'_def)
  have A'0: "0 \<le> A'" using Suc.prems(2,3) by (simp add: A'_def rnd_int_nonneg)
  show ?case
  proof (cases "E \<le> A'")
    case True
    then have "K = 1" using Suc.prems(1) ok by (simp add: A'_def Let_def)
    then show ?thesis using nx True by (auto simp add: num_ge_dy)
  next
    case False
    then obtain K' where K': "irun T E f A' = Some K'" "K = Suc K'"
      using Suc.prems(1) ok by (auto simp add: A'_def Let_def)
    from Suc.IH[OF K'(1) A'0 Suc.prems(3,4,5) nx]
    have ih: "1 \<le> K'"
      "\<forall>j. Suc m < j \<and> j < Suc m + K' \<longrightarrow> \<not> num_ge (Counter_start (dy T e) j) (dy E e)"
      "num_ge (Counter_start (dy T e) (Suc m + K')) (dy E e)" by simp_all
    have "\<not> num_ge (Counter_start (dy T e) j) (dy E e)" if "m < j" "j < m + K" for j
    proof (cases "j = Suc m")
      case True
      then show ?thesis using nx False by (simp add: num_ge_dy)
    next
      case False
      then show ?thesis using ih(2) that K'(2) by simp
    qed
    then show ?thesis using ih(3) K'(2) by simp
  qed
qed

lemma Counter_ticks_eval:
  assumes "Counter_step_size p = dy T e" "c_end p = dy E e" "irun T E f 0 = Some K"
    and "0 < T" "- 1074 \<le> e" "e \<le> 0" "K \<le> n"
  shows "Counter_after p n = Counter_done p K"
proof -
  have "Counter_start (dy T e) 0 = dy 0 e" by (simp add: dy_def)
  from irun_correct[where E = E, OF assms(3) _ assms(4,5,6) this]
  have k: "1 \<le> K"
    "\<forall>j. 0 < j \<and> j < K \<longrightarrow> \<not> num_ge (Counter_start (dy T e) j) (dy E e)"
    "num_ge (Counter_start (dy T e) K) (dy E e)" by simp_all
  obtain k' where K: "K = Suc k'" using k(1) by (cases K) simp_all
  have a: "\<forall>j. 1 \<le> j \<and> j \<le> k' \<longrightarrow> \<not> num_ge (Counter_start (Counter_step_size p) j) (c_end p)"
    using k(2) K by (simp add: assms(1,2))
  have b: "num_ge (Counter_start (Counter_step_size p) (Suc k')) (c_end p)"
    using k(3) K by (simp add: assms(1,2))
  from Counter_after_done[OF a b, of n] assms(7) K show ?thesis by simp
qed

lemma bitlen_One: "bitlen 1 = 1"
  by (subst compute_bitlen) simp

lemma bitlen_Bit0: "bitlen (numeral (Num.Bit0 n)) = bitlen (numeral n) + 1"
  by (subst compute_bitlen) simp

lemma bitlen_Bit1: "bitlen (numeral (Num.Bit1 n)) = bitlen (numeral n) + 1"
  by (subst compute_bitlen) simp

lemma irun_numeral:
  "irun T E (numeral n) A =
     (let A' = rnd_int (A + T)
      in if 2 ^ 1000 \<le> A' then None
         else if E \<le> A' then Some 1
         else map_option Suc (irun T E (pred_numeral n) A'))"
  by (simp add: numeral_eq_Suc)

lemmas int_eval = rnd_int_def round_even_div_def Let_def bitlen_One bitlen_Bit0 bitlen_Bit1
  irun_numeral



lemma fl_nearest:
  assumes "pow2 e \<le> \<bar>x\<bar>" "\<bar>x\<bar> < pow2 (e + 1)" "- 1022 \<le> e" "e \<le> 1022"
    and "\<bar>x - of_int m * pow2 (e - 52)\<bar> < pow2 (e - 53)"
  shows "fl x = dy m (e - 52)"
proof -
  have q: "quantum x = pow2 (e - 52)" using assms(1,2,3) by (rule quantum_normal)
  have x: "x \<noteq> 0" using assms(1) pow2_pos[of e] by auto
  have h: "pow2 (e - 52) / 2 = pow2 (e - 53)" using pow2_half[of "e - 52"] by simp
  have r: "rnd x = of_int m * pow2 (e - 52)"
    using x q assms(5) by (intro rnd_nearest) (simp_all add: h)
  have le: "pow2 (e - 53) \<le> pow2 e" by (rule pow2_mono) simp
  with assms(2,5) have "\<bar>of_int m * pow2 (e - 52)\<bar> < pow2 (e + 1) + pow2 e" by linarith
  also have "\<dots> \<le> pow2 1023 + pow2 1022" using assms(4) by (intro add_mono pow2_mono) simp_all
  also have "\<dots> < pow2 1024" by (simp add: pow2_def)
  finally have b: "\<bar>rnd x\<bar> < pow2 1024" by (simp add: r)
  have "of_int m * pow2 (e - 52) \<noteq> 0"
  proof
    assume "of_int m * pow2 (e - 52) = 0"
    with assms(5) have "\<bar>x\<bar> < pow2 (e - 53)" by simp
    with le assms(1) show False by linarith
  qed
  then have "0 \<le> x \<or> rnd x \<noteq> 0" by (simp only: r) simp
  from fl_finite[OF b this] r show ?thesis by (simp add: dy_def)
qed

lemma fl_of_int:
  assumes "0 < M" "bitlen M \<le> 53"
  shows "fl (of_int M) = Fin (of_int M)"
proof -
  have r: "rnd_int M = M" using assms(2) by (simp add: rnd_int_def)
  from bitlen_bounds[OF assms(1)] have "M < 2 ^ nat (bitlen M)" by simp
  also have "(2::int) ^ nat (bitlen M) \<le> 2 ^ 1000"
    using assms(2) by (intro power_increasing) simp_all
  finally have "rnd_int M < 2 ^ 1000" by (simp add: r)
  from fl_dyadic[OF assms(1) _ _ this, of 0] show ?thesis by (simp add: r pow2_def)
qed

lemma pow2_one: "pow2 1 = 2" "pow2 (- 1) = 1 / 2"
  by (simp_all add: pow2_def)

lemmas pow2_eval = pow2_numeral pow2_one

lemma Counter_pending_eval:
  assumes "Counter_step_size p = dy T e" "c_end p = dy E e" "irun T E f 0 = Some K"
    and "0 < T" "- 1074 \<le> e" "e \<le> 0" "n < K"
  shows "c_timers (Counter_after p n) \<noteq> [] \<and> c_ticks (Counter_after p n) = n"
proof -
  have "Counter_start (dy T e) 0 = dy 0 e" by (simp add: dy_def)
  from irun_correct[where E = E, OF assms(3) _ assms(4,5,6) this]
  have "\<forall>j. 0 < j \<and> j < K \<longrightarrow> \<not> num_ge (Counter_start (dy T e) j) (dy E e)" by simp
  then have "\<forall>j. 1 \<le> j \<and> j \<le> n \<longrightarrow>
               \<not> num_ge (Counter_start (Counter_step_size p) j) (c_end p)"
    using assms(7) by (simp add: assms(1,2))
  from Counter_after_running[OF this] show ?thesis by (simp add: Counter_running_def)
qed

lemma irun_le: "irun T E f A = Some K \<Longrightarrow> K \<le> f"
  by (induction f arbitrary: A K) (auto simp add: Let_def split: if_splits)

text \<open>
  \<open>end = 1\<close> with the duration 160: the step is the binary64 value of 0.1, and ten
  additions of it give a sum below 1. The interval is pending after 10 ticks and is
  cleared by the 11th.
\<close>

lemma step_1_160:
  "Counter_step_size \<lparr>c_end = Fin 1, c_suffix = [], c_prefix = [], c_duration = Fin 160\<rparr> =
     dy 7205759403792794 (- 56)"
proof -
  have a: "fl 10 = Fin 10" using fl_of_int[of 10] by (simp add: int_eval)
  have b: "fl (1 / 10) = dy 7205759403792794 (- 4 - 52)"
    by (rule fl_nearest) (simp_all add: pow2_eval)
  show ?thesis using a b by (simp add: Counter_step_size_def)
qed

lemma ticks_1_160:
  "Counter_after \<lparr>c_end = Fin 1, c_suffix = [], c_prefix = [], c_duration = Fin 160\<rparr> 11 =
   Counter_done \<lparr>c_end = Fin 1, c_suffix = [], c_prefix = [], c_duration = Fin 160\<rparr> 11 \<and>
   c_timers (Counter_after \<lparr>c_end = Fin 1, c_suffix = [], c_prefix = [], c_duration = Fin 160\<rparr> 10) \<noteq> []"
proof -
  have e: "c_end \<lparr>c_end = Fin 1, c_suffix = [], c_prefix = [], c_duration = Fin 160\<rparr> = dy (2 ^ 56) (- 56)"
    by (simp add: dy_def pow2_eval)
  have r: "irun 7205759403792794 (2 ^ 56) 20 0 = Some 11"
    by (simp add: int_eval)
  have "Counter_after \<lparr>c_end = Fin 1, c_suffix = [], c_prefix = [], c_duration = Fin 160\<rparr> 11 =
        Counter_done \<lparr>c_end = Fin 1, c_suffix = [], c_prefix = [], c_duration = Fin 160\<rparr> 11"
    by (rule Counter_ticks_eval[OF step_1_160 e r]) simp_all
  moreover have "c_timers (Counter_after \<lparr>c_end = Fin 1, c_suffix = [], c_prefix = [], c_duration = Fin 160\<rparr> 10) \<noteq> []"
    using Counter_pending_eval[OF step_1_160 e r, of 10] by simp
  ultimately show ?thesis by simp
qed

text \<open>
  The four Counters of the page, with the default duration 2000: the intervals of the
  findings 100 and 19 run 126 ticks, those of 20 and 1000 run 125. For the finding 100
  the step is the binary64 value of 0.8; after 125 ticks the sum is below 100 and the
  interval is still pending.
\<close>

lemma ticks_finding:
  assumes "fl (x / 125) = dy T e" "Fin x = dy E e" "irun T E 200 0 = Some K"
    and "0 < T" "- 1074 \<le> e" "e \<le> 0"
  shows "c_ticks (Counter_after (Findings_counter \<lparr>f_number = Fin x, f_suffix = s, f_label = l\<rparr>) 200) = K"
    and "n < K \<Longrightarrow>
         c_timers (Counter_after (Findings_counter \<lparr>f_number = Fin x, f_suffix = s, f_label = l\<rparr>) n) \<noteq> []"
proof -
  have a: "fl 125 = Fin 125" using fl_of_int[of 125] by (simp add: int_eval)
  have st: "Counter_step_size (Findings_counter \<lparr>f_number = Fin x, f_suffix = s, f_label = l\<rparr>) = dy T e"
    using a assms(1) by (simp add: Counter_step_size_def Findings_counter_def num_div_pos del: num_div.simps)
  have en: "c_end (Findings_counter \<lparr>f_number = Fin x, f_suffix = s, f_label = l\<rparr>) = dy E e"
    using assms(2) by (simp add: Findings_counter_def)
  from Counter_ticks_eval[OF st en assms(3,4,5,6) irun_le[OF assms(3)]]
  show "c_ticks (Counter_after (Findings_counter \<lparr>f_number = Fin x, f_suffix = s, f_label = l\<rparr>) 200) = K"
    by (simp add: Counter_done_def)
  show "c_timers (Counter_after (Findings_counter \<lparr>f_number = Fin x, f_suffix = s, f_label = l\<rparr>) n) \<noteq> []"
    if "n < K"
    using Counter_pending_eval[OF st en assms(3,4,5,6) that] by simp
qed

lemma ticks_finding_100:
  "c_ticks (Counter_after (Findings_counter \<lparr>f_number = Fin 100, f_suffix = s, f_label = l\<rparr>) 200) = 126 \<and>
   c_timers (Counter_after (Findings_counter \<lparr>f_number = Fin 100, f_suffix = s, f_label = l\<rparr>) 125) \<noteq> []"
proof -
  have s1: "fl (100 / 125) = dy 7205759403792794 (- 53)"
    using fl_nearest[of "- 1" "100 / 125" 7205759403792794] by (simp add: pow2_eval)
  have e1: "Fin 100 = dy (100 * 2 ^ 53) (- 53)" by (simp add: dy_def pow2_eval)
  have r1: "irun 7205759403792794 (100 * 2 ^ 53) 200 0 = Some 126" by (simp add: int_eval)
  have "c_ticks (Counter_after (Findings_counter \<lparr>f_number = Fin 100, f_suffix = s, f_label = l\<rparr>) 200) = 126"
    by (rule ticks_finding(1)[OF s1 e1 r1]) simp_all
  moreover have "c_timers (Counter_after (Findings_counter \<lparr>f_number = Fin 100, f_suffix = s, f_label = l\<rparr>) 125) \<noteq> []"
    by (rule ticks_finding(2)[OF s1 e1 r1]) simp_all
  ultimately show ?thesis by simp
qed

lemma Findings_ticks:
  "map (\<lambda>f. c_ticks (Counter_after (Findings_counter f) 200)) findings = [126, 126, 125, 125]"
proof -
  have s2: "fl (19 / 125) = dy 5476377146882523 (- 55)"
    using fl_nearest[of "- 3" "19 / 125" 5476377146882523] by (simp add: pow2_eval)
  have s3: "fl (20 / 125) = dy 5764607523034235 (- 55)"
    using fl_nearest[of "- 3" "20 / 125" 5764607523034235] by (simp add: pow2_eval)
  have s4: "fl (1000 / 125) = dy 8 0"
    using fl_of_int[of 8] by (simp add: int_eval dy_def pow2_def)
  have e2: "Fin 19 = dy (19 * 2 ^ 55) (- 55)" by (simp add: dy_def pow2_eval)
  have e3: "Fin 20 = dy (20 * 2 ^ 55) (- 55)" by (simp add: dy_def pow2_eval)
  have e4: "Fin 1000 = dy 1000 0" by (simp add: dy_def pow2_eval)
  have r2: "irun 5476377146882523 (19 * 2 ^ 55) 200 0 = Some 126" by (simp add: int_eval)
  have r3: "irun 5764607523034235 (20 * 2 ^ 55) 200 0 = Some 125" by (simp add: int_eval)
  have r4: "irun 8 1000 200 0 = Some 125" by (simp add: int_eval)
  have t2: "c_ticks (Counter_after (Findings_counter \<lparr>f_number = Fin 19, f_suffix = s, f_label = l\<rparr>) 200) = 126" for s l
    by (rule ticks_finding(1)[OF s2 e2 r2]) simp_all
  have t3: "c_ticks (Counter_after (Findings_counter \<lparr>f_number = Fin 20, f_suffix = s, f_label = l\<rparr>) 200) = 125" for s l
    by (rule ticks_finding(1)[OF s3 e3 r3]) simp_all
  have t4: "c_ticks (Counter_after (Findings_counter \<lparr>f_number = Fin 1000, f_suffix = s, f_label = l\<rparr>) 200) = 125" for s l
    by (rule ticks_finding(1)[OF s4 e4 r4]) simp_all
  show ?thesis by (simp add: findings_def ticks_finding_100 t2 t3 t4)
qed

section \<open>Error analysis of the Counter loop\<close>

lemma u53_eq: "u53 = 1 / 2 ^ 53"
  by (simp add: u53_def pow2_def)

lemma u53_bounds: "0 < u53" "u53 \<le> 1 / 2" "u53 < 1"
  by (simp_all add: u53_eq)

lemma rnd_lower:
  assumes "pow2 (- 1022) \<le> x"
  shows "x * (1 - u53) \<le> rnd x"
proof -
  have "0 < x" using assms pow2_pos[of "- 1022"] by linarith
  then have "\<bar>x\<bar> = x" by simp
  with rnd_error[of x] assms have "\<bar>rnd x - x\<bar> \<le> x * u53" by (simp add: u53_def)
  then show ?thesis by (simp add: algebra_simps abs_le_iff)
qed

lemma rnd_upper:
  assumes "pow2 (- 1022) \<le> x"
  shows "rnd x \<le> x * (1 + u53)"
proof -
  have "0 < x" using assms pow2_pos[of "- 1022"] by linarith
  then have "\<bar>x\<bar> = x" by simp
  with rnd_error[of x] assms have "\<bar>rnd x - x\<bar> \<le> x * u53" by (simp add: u53_def)
  then show ?thesis by (simp add: algebra_simps abs_le_iff)
qed

lemma fl_pos:
  assumes "pow2 (- 1022) \<le> x" "x \<le> pow2 1023"
  shows "fl x = Fin (rnd x)"
proof -
  have "0 < x" using assms pow2_pos[of "- 1022"] by linarith
  then have "\<bar>x\<bar> = x" by simp
  with fl_error(1)[of x] assms show ?thesis by simp
qed

lemma bernoulli_rat: "1 - of_nat n * u53 \<le> (1 - u53) ^ n"
proof (induction n)
  case 0
  then show ?case by simp
next
  case (Suc n)
  have "1 - of_nat (Suc n) * u53 \<le> (1 - of_nat n * u53) * (1 - u53)"
    using u53_bounds(1) by (simp add: algebra_simps)
  also have "\<dots> \<le> (1 - u53) ^ n * (1 - u53)"
    using Suc u53_bounds by (intro mult_right_mono) simp_all
  finally show ?case by (simp add: mult.commute)
qed

lemma key_ineq:
  fixes N :: nat
  assumes "N \<le> 2 ^ 26"
  shows "of_nat N * (1 + u53) \<le> (of_nat N + 1) * (1 - u53) ^ (N + 2)"
proof -
  have "N * N \<le> 2 ^ 26 * 2 ^ 26" using assms by (intro mult_mono) simp_all
  then have "N * N + 4 * N + 2 \<le> 2 ^ 53" using assms by simp
  then have "(of_nat (N * N + 4 * N + 2) :: rat) \<le> of_nat (2 ^ 53)"
    by (simp only: of_nat_le_iff)
  then have "(of_nat N * of_nat N + 4 * of_nat N + 2) * u53 \<le> 1"
    by (simp add: u53_eq field_simps)
  then have "of_nat N * (1 + u53) \<le> (of_nat N + 1) * (1 - of_nat (N + 2) * u53)"
    by (simp add: algebra_simps)
  also have "\<dots> \<le> (of_nat N + 1) * (1 - u53) ^ (N + 2)"
    using bernoulli_rat[of "N + 2"] by (intro mult_left_mono) simp_all
  finally show ?thesis .
qed


lemma pow2_1000_dbl: "pow2 1000 + pow2 1000 \<le> pow2 1023"
proof -
  have "pow2 1000 + pow2 1000 = pow2 1001" using pow2_add[of 1000 1] by (simp add: pow2_def)
  also have "\<dots> \<le> pow2 1023" by (rule pow2_mono) simp
  finally show ?thesis .
qed

lemma start_step:
  assumes st: "pow2 (- 1022) \<le> st" "st \<le> pow2 1000"
    and E: "E \<le> pow2 1000" "E * u53 \<le> st * (1 - u53)"
    and a: "Counter_start (Fin st) k = Fin a" "0 \<le> a" "a < E"
  shows "\<exists>a'. Counter_start (Fin st) (Suc k) = Fin a' \<and> a \<le> a' \<and> (a + st) * (1 - u53) \<le> a'"
proof -
  have z1: "pow2 (- 1022) \<le> a + st" using st(1) a(2) by linarith
  have z2: "a + st \<le> pow2 1023" using st(2) E(1) a(3) pow2_1000_dbl by linarith
  have f: "fl (a + st) = Fin (rnd (a + st))" by (rule fl_pos[OF z1 z2])
  have l: "(a + st) * (1 - u53) \<le> rnd (a + st)" by (rule rnd_lower[OF z1])
  have "a * u53 \<le> E * u53" using a(3) u53_bounds(1) by (intro mult_right_mono) simp_all
  with E(2) have "a * u53 \<le> st * (1 - u53)" by linarith
  then have "a \<le> (a + st) * (1 - u53)" by (simp add: algebra_simps)
  with l have "a \<le> rnd (a + st)" by linarith
  then show ?thesis using f l a(1) by simp
qed

lemma power_shrink: "(1 - u53) ^ Suc k \<le> 1 - u53"
proof -
  have "(1 - u53) ^ k \<le> 1" using u53_bounds by (intro power_le_one) simp_all
  then have "(1 - u53) * (1 - u53) ^ k \<le> (1 - u53) * 1"
    using u53_bounds by (intro mult_left_mono) simp_all
  then show ?thesis by simp
qed

lemma start_running:
  assumes st: "pow2 (- 1022) \<le> st" "st \<le> pow2 1000"
    and E: "0 < E" "E \<le> pow2 1000" "E * u53 \<le> st * (1 - u53)"
    and ns: "\<forall>j. 1 \<le> j \<and> j \<le> k \<longrightarrow> \<not> num_ge (Counter_start (Fin st) j) (Fin E)"
  shows "\<exists>a. Counter_start (Fin st) k = Fin a \<and> 0 \<le> a \<and> a < E \<and>
             of_nat k * st * (1 - u53) ^ k \<le> a"
  using ns
proof (induction k)
  case 0
  then show ?case using E(1) by simp
next
  case (Suc k)
  then obtain a where a: "Counter_start (Fin st) k = Fin a" "0 \<le> a" "a < E"
    "of_nat k * st * (1 - u53) ^ k \<le> a" by auto
  from start_step[OF st E(2,3) a(1,2,3)] obtain a' where
    a': "Counter_start (Fin st) (Suc k) = Fin a'" "a \<le> a'" "(a + st) * (1 - u53) \<le> a'" by blast
  have "\<not> num_ge (Counter_start (Fin st) (Suc k)) (Fin E)"
    using Suc.prems[rule_format, of "Suc k"] by (simp del: Counter_start.simps)
  then have lt: "a' < E" by (simp add: a'(1) del: Counter_start.simps)
  have st0: "0 < st" using st(1) pow2_pos[of "- 1022"] by linarith
  have "of_nat (Suc k) * st * (1 - u53) ^ Suc k =
        of_nat k * st * (1 - u53) ^ k * (1 - u53) + st * (1 - u53) ^ Suc k"
    by (simp add: algebra_simps)
  also have "\<dots> \<le> a * (1 - u53) + st * (1 - u53)"
  proof (intro add_mono)
    show "of_nat k * st * (1 - u53) ^ k * (1 - u53) \<le> a * (1 - u53)"
      using a(4) u53_bounds by (intro mult_right_mono) simp_all
    show "st * (1 - u53) ^ Suc k \<le> st * (1 - u53)"
      using power_shrink[of k] st0 by (intro mult_left_mono) simp_all
  qed
  also have "\<dots> = (a + st) * (1 - u53)" by (simp add: algebra_simps)
  also have "\<dots> \<le> a'" by (rule a'(3))
  finally show ?case using a'(1) a(2) a'(2) lt by auto
qed

lemma stops_by:
  assumes st: "pow2 (- 1022) \<le> st" "st \<le> pow2 1000"
    and E: "0 < E" "E \<le> pow2 1000" "E * u53 \<le> st * (1 - u53)"
    and fin: "E \<le> of_nat (Suc N) * st * (1 - u53) ^ Suc N"
  shows "\<exists>K. 1 \<le> K \<and> K \<le> Suc N \<and> num_ge (Counter_start (Fin st) K) (Fin E) \<and>
             (\<forall>j. 1 \<le> j \<and> j < K \<longrightarrow> \<not> num_ge (Counter_start (Fin st) j) (Fin E))"
proof -
  have ex: "\<exists>j. 1 \<le> j \<and> j \<le> Suc N \<and> num_ge (Counter_start (Fin st) j) (Fin E)"
  proof (rule ccontr)
    assume "\<not> ?thesis"
    then have "\<forall>j. 1 \<le> j \<and> j \<le> Suc N \<longrightarrow> \<not> num_ge (Counter_start (Fin st) j) (Fin E)"
      by blast
    from start_running[OF st E this] fin show False by auto
  qed
  define Q where "Q j \<longleftrightarrow> 1 \<le> j \<and> num_ge (Counter_start (Fin st) j) (Fin E)" for j
  from ex obtain j where j: "Q j" "j \<le> Suc N" by (auto simp add: Q_def)
  define K where "K = (LEAST j. Q j)"
  have QK: "Q K" unfolding K_def using j(1) by (rule LeastI)
  have KN: "K \<le> Suc N" using Least_le[of Q j] j by (simp add: K_def)
  have "\<not> Q i" if "i < K" for i using not_less_Least[of i Q] that by (simp add: K_def)
  then show ?thesis using QK KN by (auto simp add: Q_def)
qed


lemma step_size_domain:
  assumes E: "1 \<le> E" "E \<le> 2 ^ 53" and d: "1 \<le> d" "d \<le> 2 ^ 30"
  shows "\<exists>D st. num_div (Fin d) (Fin 16) = Fin D \<and> 0 < D \<and>
           num_div (Fin E) (Fin D) = Fin st \<and>
           pow2 (- 1022) \<le> st \<and> st \<le> pow2 1000 \<and> E * u53 \<le> st * (1 - u53) \<and>
           E \<le> of_nat (Suc (nat \<lceil>d / 16\<rceil>)) * st * (1 - u53) ^ Suc (nat \<lceil>d / 16\<rceil>)"
proof -
  define t where "t = d / 16"
  define D where "D = rnd t"
  define x where "x = E / D"
  define st where "st = rnd x"
  define N where "N = nat \<lceil>t\<rceil>"
  have t: "1 / 16 \<le> t" "t \<le> 2 ^ 26" using d by (simp_all add: t_def)
  have lo4: "pow2 (- 1022) \<le> 1 / 16"
    using pow2_mono[of "- 1022" "- 4"] by (simp add: pow2_def)
  have lo27: "pow2 (- 1022) \<le> 1 / 2 ^ 28"
    using pow2_mono[of "- 1022" "- 28"] by (simp add: pow2_def)
  have hi26: "(2::rat) ^ 26 \<le> pow2 1023" using pow2_mono[of 26 1023] by (simp add: pow2_def)
  have hi58: "(2::rat) ^ 58 \<le> pow2 1023" using pow2_mono[of 58 1023] by (simp add: pow2_def)
  have hi59: "(2::rat) ^ 59 \<le> pow2 1000" using pow2_mono[of 59 1000] by (simp add: pow2_def)
  have tl: "pow2 (- 1022) \<le> t" using t(1) lo4 by linarith
  have th: "t \<le> pow2 1023" using t(2) hi26 by linarith
  have fD: "fl t = Fin D" unfolding D_def by (rule fl_pos[OF tl th])
  have Dl: "t * (1 - u53) \<le> D" unfolding D_def by (rule rnd_lower[OF tl])
  have Du: "D \<le> t * (1 + u53)" unfolding D_def by (rule rnd_upper[OF tl])
  have t0: "0 < t" using t(1) by linarith
  have "t * (1 / 2) \<le> t * (1 - u53)" using u53_bounds t0 by (intro mult_left_mono) simp_all
  with Dl t(1) have D32: "1 / 32 \<le> D" by linarith
  have "t * (1 + u53) \<le> t * 2" using u53_bounds t0 by (intro mult_left_mono) simp_all
  moreover have "t * 2 \<le> 2 ^ 27" using t(2) by simp
  ultimately have D27: "D \<le> 2 ^ 27" using Du by linarith
  have D0: "0 < D" using D32 by linarith
  have x0: "0 < x" using E(1) D0 by (simp add: x_def)
  have xl: "E / 2 ^ 27 \<le> x" unfolding x_def using D27 D0 E(1) by (intro divide_left_mono) simp_all
  have "x \<le> E / (1 / 32)" unfolding x_def using D32 D0 E(1) by (intro divide_left_mono) simp_all
  then have xh: "x \<le> 2 ^ 58" using E(2) by simp
  have "1 / 2 ^ 27 \<le> E / 2 ^ 27" using E(1) by (simp add: divide_right_mono)
  with xl have xl1: "1 / 2 ^ 27 \<le> x" by linarith
  have xlo: "pow2 (- 1022) \<le> x" using xl1 lo27 by simp
  have xhi: "x \<le> pow2 1023" using xh hi58 by linarith
  have fx: "fl x = Fin st" unfolding st_def by (rule fl_pos[OF xlo xhi])
  have sl: "x * (1 - u53) \<le> st" unfolding st_def by (rule rnd_lower[OF xlo])
  have su: "st \<le> x * (1 + u53)" unfolding st_def by (rule rnd_upper[OF xlo])
  have half: "x * (1 / 2) \<le> x * (1 - u53)" using u53_bounds x0 by (intro mult_left_mono) simp_all
  with sl have sh: "x / 2 \<le> st" by simp
  have c1: "pow2 (- 1022) \<le> st" using sh xl1 lo27 by simp
  have "x * (1 + u53) \<le> x * 2" using u53_bounds x0 by (intro mult_left_mono) simp_all
  with su xh hi59 have c2: "st \<le> pow2 1000" by simp
  have st0: "0 < st" using sh x0 by linarith
  have c3: "E * u53 \<le> st * (1 - u53)"
  proof -
    have "E * u53 \<le> E / 2 ^ 29" using E(1) by (simp add: u53_eq field_simps)
    also have "\<dots> = E / 2 ^ 27 / 4" by simp
    also have "\<dots> \<le> x / 4" using xl by simp
    also have "\<dots> = x / 2 * (1 / 2)" by simp
    also have "\<dots> \<le> st * (1 / 2)" using sh by simp
    also have "\<dots> \<le> st * (1 - u53)" using u53_bounds st0 by (intro mult_left_mono) simp_all
    finally show ?thesis .
  qed
  have tN: "t \<le> of_nat N"
  proof -
    have "0 \<le> \<lceil>t\<rceil>" using t0 by simp
    then have "(of_nat N :: rat) = of_int \<lceil>t\<rceil>" by (simp add: N_def)
    then show ?thesis by simp
  qed
  have N26: "N \<le> 2 ^ 26"
  proof -
    have "\<lceil>t\<rceil> \<le> 67108864" using t(2) by (simp add: ceiling_le_iff)
    then have "nat \<lceil>t\<rceil> \<le> nat 67108864" by (rule nat_mono)
    then show ?thesis by (simp add: N_def)
  qed
  have c4: "E \<le> of_nat (Suc N) * st * (1 - u53) ^ Suc N"
  proof -
    have "D \<le> of_nat N * (1 + u53)"
    proof -
      have "t * (1 + u53) \<le> of_nat N * (1 + u53)"
        using tN u53_bounds by (intro mult_right_mono) simp_all
      with Du show ?thesis by linarith
    qed
    also have "\<dots> \<le> (of_nat N + 1) * (1 - u53) ^ (N + 2)" by (rule key_ineq[OF N26])
    finally have h2: "D \<le> (of_nat N + 1) * (1 - u53) ^ (N + 2)" .
    have "E = D * x" using D0 by (simp add: x_def)
    also have "\<dots> \<le> (of_nat N + 1) * (1 - u53) ^ (N + 2) * x"
      using h2 x0 by (intro mult_right_mono) simp_all
    also have "\<dots> = of_nat (Suc N) * (x * (1 - u53)) * (1 - u53) ^ Suc N"
      by (simp add: algebra_simps)
    also have "\<dots> \<le> of_nat (Suc N) * st * (1 - u53) ^ Suc N"
      using sl u53_bounds by (intro mult_right_mono mult_left_mono) simp_all
    finally show ?thesis .
  qed
  have d1: "num_div (Fin d) (Fin 16) = Fin D" using fD by (simp add: t_def num_div_pos del: num_div.simps)
  have d2: "num_div (Fin E) (Fin D) = Fin st" using fx num_div_pos[OF D0, of E] by (simp add: x_def)
  show ?thesis
    using d1 d2 D0 c1 c2 c3 c4 unfolding N_def t_def by blast
qed

section \<open>The Counter run\<close>

lemma Counter_run_domain:
  assumes p: "c_end p = Fin E" "c_duration p = Fin d"
    and E: "E = 0 \<or> 1 \<le> E" "E \<le> 2 ^ 53" and d: "1 \<le> d" "d \<le> 2 ^ 30"
  shows "\<exists>K a. 1 \<le> K \<and> K \<le> Suc (nat \<lceil>d / 16\<rceil>) \<and>
           (\<forall>n. K \<le> n \<longrightarrow> Counter_after p n = Counter_done p K) \<and>
           (\<forall>n. n < K \<longrightarrow>
              Counter_after p n = Counter_running p (Fin (a n)) (Fin (of_int \<lfloor>a n\<rfloor>)) n \<and>
              0 \<le> a n \<and> a n \<le> E) \<and>
           (\<forall>n. Suc n < K \<longrightarrow> a n \<le> a (Suc n))"
proof (cases "E = 0")
  case True
  from step_size_domain[of 1 d] d obtain D where
    D: "num_div (Fin d) (Fin 16) = Fin D" "0 < D" by auto
  have s: "Counter_step_size p = Fin 0"
    using D by (simp add: Counter_step_size_def p True fl_zero)
  have a: "\<forall>j. 1 \<le> j \<and> j \<le> (0::nat) \<longrightarrow>
            \<not> num_ge (Counter_start (Counter_step_size p) j) (c_end p)" by simp
  have b: "num_ge (Counter_start (Counter_step_size p) (Suc 0)) (c_end p)"
    by (simp add: s p True fl_zero)
  have stop: "Counter_after p n = Counter_done p (Suc 0)" if "Suc 0 \<le> n" for n
    using Counter_after_done[OF a b that] .
  have run: "Counter_after p 0 = Counter_running p (Fin 0) (Fin (of_int \<lfloor>0::rat\<rfloor>)) 0"
    by (simp add: Counter_after_0 Counter_visible_running)
  show ?thesis
    apply (rule exI[of _ "Suc 0"])
    apply (rule exI[of _ "\<lambda>n. 0"])
    using stop run True by simp
next
  case False
  then have E1: "1 \<le> E" and E0: "0 < E" using E(1) by auto
  from step_size_domain[OF E1 E(2) d] obtain D st where
    D: "num_div (Fin d) (Fin 16) = Fin D" "0 < D" "num_div (Fin E) (Fin D) = Fin st"
    and st: "pow2 (- 1022) \<le> st" "st \<le> pow2 1000"
    and c3: "E * u53 \<le> st * (1 - u53)"
    and c4: "E \<le> of_nat (Suc (nat \<lceil>d / 16\<rceil>)) * st * (1 - u53) ^ Suc (nat \<lceil>d / 16\<rceil>)"
    by blast
  have Eh: "E \<le> pow2 1000"
  proof -
    have "(2::rat) ^ 53 \<le> pow2 1000" using pow2_mono[of 53 1000] by (simp add: pow2_def)
    with E(2) show ?thesis by linarith
  qed
  have s: "Counter_step_size p = Fin st" using D by (simp add: Counter_step_size_def p)
  from stops_by[OF st E0 Eh c3 c4] obtain K where
    K: "1 \<le> K" "K \<le> Suc (nat \<lceil>d / 16\<rceil>)" "num_ge (Counter_start (Fin st) K) (Fin E)"
    "\<forall>j. 1 \<le> j \<and> j < K \<longrightarrow> \<not> num_ge (Counter_start (Fin st) j) (Fin E)" by blast
  define a where "a n = (case Counter_start (Fin st) n of Fin r \<Rightarrow> r | _ \<Rightarrow> 0)" for n
  have run: "Counter_start (Fin st) n = Fin (a n) \<and> 0 \<le> a n \<and> a n < E" if "n < K" for n
  proof -
    have "\<forall>j. 1 \<le> j \<and> j \<le> n \<longrightarrow> \<not> num_ge (Counter_start (Fin st) j) (Fin E)"
      using K(4) that by simp
    from start_running[OF st E0 Eh c3 this] show ?thesis by (auto simp add: a_def)
  qed
  have shape: "Counter_after p n = Counter_running p (Fin (a n)) (Fin (of_int \<lfloor>a n\<rfloor>)) n"
    if "n < K" for n
  proof -
    have "\<forall>j. 1 \<le> j \<and> j \<le> n \<longrightarrow>
            \<not> num_ge (Counter_start (Counter_step_size p) j) (c_end p)"
      using K(4) that by (simp add: s p)
    from Counter_after_running[OF this] run[OF that] show ?thesis by (simp add: s)
  qed
  have mono: "a n \<le> a (Suc n)" if "Suc n < K" for n
  proof -
    have n: "n < K" using that by simp
    from run[OF n] have r: "Counter_start (Fin st) n = Fin (a n)" "0 \<le> a n" "a n < E" by simp_all
    from start_step[OF st Eh c3 r] obtain a' where
      "Counter_start (Fin st) (Suc n) = Fin a'" "a n \<le> a'" by blast
    moreover have "Counter_start (Fin st) (Suc n) = Fin (a (Suc n))" using run[OF that] by blast
    ultimately show ?thesis by simp
  qed
  obtain k' where k': "K = Suc k'" using K(1) by (cases K) simp_all
  have "\<forall>j. 1 \<le> j \<and> j \<le> k' \<longrightarrow>
          \<not> num_ge (Counter_start (Counter_step_size p) j) (c_end p)"
    using K(4) k' by (simp add: s p)
  moreover have "num_ge (Counter_start (Counter_step_size p) (Suc k')) (c_end p)"
    using K(3) k' by (simp add: s p)
  ultimately have stop: "Counter_after p n = Counter_done p K" if "K \<le> n" for n
    using Counter_after_done[of k' p n] that k' by simp
  have "\<forall>n. n < K \<longrightarrow>
          Counter_after p n = Counter_running p (Fin (a n)) (Fin (of_int \<lfloor>a n\<rfloor>)) n \<and>
          0 \<le> a n \<and> a n \<le> E"
    using shape run by (simp add: less_imp_le)
  then show ?thesis using K(1,2) stop mono by blast
qed


text \<open>
  Claim C1, amended. For every integer \<open>end\<close> from 0 to \<open>2 ^ 53\<close> and every duration from
  1 to \<open>2 ^ 30\<close> milliseconds, once the instance is visible the displayed values of
  successive ticks never decrease and never exceed \<open>end\<close>, and from some tick on the
  displayed value is \<open>end\<close> and the interval is cleared.
\<close>

theorem Counter_reaches_end:
  assumes "c_end p = Fin (of_int e)" "0 \<le> e" "e \<le> 2 ^ 53"
    and "c_duration p = Fin d" "1 \<le> d" "d \<le> 2 ^ 30"
  shows "(\<forall>n. num_ge (c_count (Counter_after p (Suc n))) (c_count (Counter_after p n))) \<and>
         (\<forall>n. num_ge (c_end p) (c_count (Counter_after p n))) \<and>
         (\<exists>K. \<forall>n. K \<le> n \<longrightarrow>
            c_count (Counter_after p n) = c_end p \<and> c_timers (Counter_after p n) = [])"
proof -
  have E1: "(of_int e :: rat) = 0 \<or> 1 \<le> (of_int e :: rat)" using assms(2) by auto
  have "(of_int e :: rat) \<le> of_int (2 ^ 53)" using assms(3) by (simp only: of_int_le_iff)
  then have E2: "(of_int e :: rat) \<le> 2 ^ 53" by simp
  from Counter_run_domain[OF assms(1,4) E1 E2 assms(5,6)] obtain K a where
    K: "1 \<le> K"
    and stop: "\<forall>n. K \<le> n \<longrightarrow> Counter_after p n = Counter_done p K"
    and run: "\<forall>n. n < K \<longrightarrow>
              Counter_after p n = Counter_running p (Fin (a n)) (Fin (of_int \<lfloor>a n\<rfloor>)) n \<and>
              0 \<le> a n \<and> a n \<le> of_int e"
    and mono: "\<forall>n. Suc n < K \<longrightarrow> a n \<le> a (Suc n)" by blast
  have cnt: "c_count (Counter_after p n) =
               (if n < K then Fin (of_int \<lfloor>a n\<rfloor>) else Fin (of_int e))" for n
    using stop run assms(1) by (simp add: Counter_running_def Counter_done_def)
  have below: "(of_int \<lfloor>a n\<rfloor> :: rat) \<le> of_int e" if "n < K" for n
  proof -
    have "(of_int \<lfloor>a n\<rfloor> :: rat) \<le> a n" by simp
    also have "\<dots> \<le> of_int e" using run that by simp
    finally show ?thesis .
  qed
  have m: "num_ge (c_count (Counter_after p (Suc n))) (c_count (Counter_after p n))" for n
  proof (cases "Suc n < K")
    case True
    then have "\<lfloor>a n\<rfloor> \<le> \<lfloor>a (Suc n)\<rfloor>" using mono by (simp add: floor_mono)
    then show ?thesis using True by (simp add: cnt)
  next
    case False
    then show ?thesis using below[of n] by (simp add: cnt)
  qed
  have b: "num_ge (c_end p) (c_count (Counter_after p n))" for n
    using below[of n] by (simp add: cnt assms(1))
  have f: "\<forall>n. K \<le> n \<longrightarrow>
            c_count (Counter_after p n) = c_end p \<and> c_timers (Counter_after p n) = []"
    using stop by (simp add: Counter_done_def)
  show ?thesis using m b f by blast
qed

theorem Counter_reaches_end_witness:
  "c_end (Counter_props (Fin 100)) = Fin (of_int 100) \<and> (0::int) \<le> 100 \<and> (100::int) \<le> 2 ^ 53 \<and>
   c_duration (Counter_props (Fin 100)) = Fin 2000 \<and> (1::rat) \<le> 2000 \<and> (2000::rat) \<le> 2 ^ 30 \<and>
   num_ge (c_count (Counter_after (Counter_props (Fin 100)) (Suc 0)))
     (c_count (Counter_after (Counter_props (Fin 100)) 0)) \<and>
   num_ge (c_end (Counter_props (Fin 100))) (c_count (Counter_after (Counter_props (Fin 100)) 7)) \<and>
   (\<exists>K. c_count (Counter_after (Counter_props (Fin 100)) K) = c_end (Counter_props (Fin 100)) \<and>
        c_timers (Counter_after (Counter_props (Fin 100)) K) = [])"
proof -
  have h: "c_end (Counter_props (Fin 100)) = Fin (of_int 100)" "(0::int) \<le> 100" "(100::int) \<le> 2 ^ 53"
    "c_duration (Counter_props (Fin 100)) = Fin 2000" "(1::rat) \<le> 2000" "(2000::rat) \<le> 2 ^ 30"
    by (simp_all add: Counter_props_def)
  from Counter_reaches_end[OF h] h show ?thesis by blast
qed

text \<open>
  Claim C8, amended. For every integer \<open>end\<close> from 0 to \<open>2 ^ 53\<close> and every duration from
  1 to \<open>2 ^ 30\<close> milliseconds the interval callback runs at most
  \<open>\<lceil>duration / 16\<rceil> + 1\<close> times: the rounding of \<^verbatim>\<open>start += step\<close> can cost one tick more
  than \<open>\<lceil>duration / 16\<rceil>\<close>.
\<close>

theorem Counter_tick_bound:
  assumes "c_end p = Fin (of_int e)" "0 \<le> e" "e \<le> 2 ^ 53"
    and "c_duration p = Fin d" "1 \<le> d" "d \<le> 2 ^ 30"
  shows "c_ticks (Counter_after p n) \<le> nat \<lceil>d / 16\<rceil> + 1"
proof -
  have E1: "(of_int e :: rat) = 0 \<or> 1 \<le> (of_int e :: rat)" using assms(2) by auto
  have "(of_int e :: rat) \<le> of_int (2 ^ 53)" using assms(3) by (simp only: of_int_le_iff)
  then have E2: "(of_int e :: rat) \<le> 2 ^ 53" by simp
  from Counter_run_domain[OF assms(1,4) E1 E2 assms(5,6)] obtain K a where
    K: "K \<le> Suc (nat \<lceil>d / 16\<rceil>)"
    and stop: "\<forall>n. K \<le> n \<longrightarrow> Counter_after p n = Counter_done p K"
    and run: "\<forall>n. n < K \<longrightarrow>
              Counter_after p n = Counter_running p (Fin (a n)) (Fin (of_int \<lfloor>a n\<rfloor>)) n \<and>
              0 \<le> a n \<and> a n \<le> of_int e" by blast
  have "c_ticks (Counter_after p n) = (if n < K then n else K)"
    using stop run by (simp add: Counter_running_def Counter_done_def)
  then show ?thesis using K by simp
qed

theorem Counter_tick_bound_witness:
  "c_end (Counter_props (Fin 100)) = Fin (of_int 100) \<and> (0::int) \<le> 100 \<and> (100::int) \<le> 2 ^ 53 \<and>
   c_duration (Counter_props (Fin 100)) = Fin 2000 \<and> (1::rat) \<le> 2000 \<and> (2000::rat) \<le> 2 ^ 30 \<and>
   c_ticks (Counter_after (Counter_props (Fin 100)) 200) \<le> nat \<lceil>(2000::rat) / 16\<rceil> + 1"
proof -
  have h: "c_end (Counter_props (Fin 100)) = Fin (of_int 100)" "(0::int) \<le> 100" "(100::int) \<le> 2 ^ 53"
    "c_duration (Counter_props (Fin 100)) = Fin 2000" "(1::rat) \<le> 2000" "(2000::rat) \<le> 2 ^ 30"
    by (simp_all add: Counter_props_def)
  from Counter_tick_bound[OF h, of 200] h show ?thesis by blast
qed

text \<open>
  The bound \<open>\<lceil>duration / 16\<rceil>\<close> itself fails. For the first finding of the page, 100
  with the default duration 2000, the interval is still pending after 125 ticks and
  the callback runs 126 times, the last run clearing the interval. With \<open>end = 1\<close> and
  the duration 160 it is pending after 10 ticks and the callback runs 11 times.
\<close>

theorem Counter_tick_bound_counterexample:
  "c_timers (Counter_after (Findings_counter \<lparr>f_number = Fin 100, f_suffix = ''K+'', f_label = ''Monthly recurring revenue generated''\<rparr>) 125) \<noteq> [] \<and>
   c_ticks (Counter_after (Findings_counter \<lparr>f_number = Fin 100, f_suffix = ''K+'', f_label = ''Monthly recurring revenue generated''\<rparr>) 200) = 126 \<and>
   \<not> c_ticks (Counter_after (Findings_counter \<lparr>f_number = Fin 100, f_suffix = ''K+'', f_label = ''Monthly recurring revenue generated''\<rparr>) 200) \<le> nat \<lceil>(2000::rat) / 16\<rceil> \<and>
   c_timers (Counter_after \<lparr>c_end = Fin 1, c_suffix = [], c_prefix = [], c_duration = Fin 160\<rparr> 10) \<noteq> [] \<and>
   c_ticks (Counter_after \<lparr>c_end = Fin 1, c_suffix = [], c_prefix = [], c_duration = Fin 160\<rparr> 11) = 11 \<and>
   \<not> c_ticks (Counter_after \<lparr>c_end = Fin 1, c_suffix = [], c_prefix = [], c_duration = Fin 160\<rparr> 11) \<le> nat \<lceil>(160::rat) / 16\<rceil>"
  using ticks_finding_100 ticks_1_160 by (simp add: Counter_done_def)

lemma num_add_NaN: "num_add x NaN = NaN"
  by (cases x) simp_all

lemma Counter_start_NaN: "1 \<le> j \<Longrightarrow> Counter_start NaN j = NaN"
  by (cases j) (simp_all add: num_add_NaN)

lemma Counter_after_NaN:
  assumes "Counter_step_size p = NaN" "1 \<le> n"
  shows "Counter_after p n = Counter_running p NaN NaN n"
proof -
  have "\<forall>j. 1 \<le> j \<and> j \<le> n \<longrightarrow> \<not> num_ge (Counter_start (Counter_step_size p) j) (c_end p)"
    by (simp add: assms(1) Counter_start_NaN)
  from Counter_after_running[OF this] assms(2) show ?thesis
    by (simp add: assms(1) Counter_start_NaN)
qed

lemma fl_underflow: "fl (pow2 (- 1074) / 16) = Fin 0"
proof -
  have "pow2 (- 1074) = pow2 (- 1078) * pow2 4" using pow2_add[of "- 1078" 4] by simp
  then have x: "pow2 (- 1074) / 16 = pow2 (- 1078)" by (simp add: pow2_numeral)
  have lt: "pow2 (- 1078) < pow2 (- 1075)" by (simp add: pow2_less_iff)
  have q: "quantum (pow2 (- 1078)) = pow2 (- 1074)"
    using pow2_pos[of "- 1078"] by (intro quantum_subnormal) (simp_all add: pow2_less_iff)
  have h: "pow2 (- 1074) / 2 = pow2 (- 1075)" using pow2_half[of "- 1074"] by simp
  have "rnd (pow2 (- 1078)) = of_int 0 * pow2 (- 1074)"
    using pow2_pos[of "- 1078"] lt by (intro rnd_nearest[OF _ q]) (simp_all add: h)
  then have "rnd (pow2 (- 1078)) = 0" by simp
  then show ?thesis using pow2_pos[of 1024] pow2_pos[of "- 1078"] by (simp add: x fl_def)
qed

text \<open>
  Outside these bounds the final value need not be reached. With \<open>end = 0\<close> and the
  smallest positive duration \<open>2 ^ -1074\<close> the quotient \<^verbatim>\<open>duration / 16\<close> rounds to 0, the
  step is \<^verbatim>\<open>0 / 0\<close>, and every tick displays NaN and leaves the interval pending: the
  interval is never cleared and no tick displays 0.
\<close>

theorem Counter_reaches_end_counterexample:
  "0 < pow2 (- 1074) \<and>
   c_count (Counter_after \<lparr>c_end = Fin 0, c_suffix = [], c_prefix = [], c_duration = Fin (pow2 (- 1074))\<rparr> 1) = NaN \<and>
   \<not> (\<exists>n. c_timers (Counter_after \<lparr>c_end = Fin 0, c_suffix = [], c_prefix = [],
            c_duration = Fin (pow2 (- 1074))\<rparr> n) = []) \<and>
   \<not> (\<exists>n. 1 \<le> n \<and> c_count (Counter_after \<lparr>c_end = Fin 0, c_suffix = [], c_prefix = [],
            c_duration = Fin (pow2 (- 1074))\<rparr> n) = Fin 0)"
proof -
  have s: "Counter_step_size \<lparr>c_end = Fin 0, c_suffix = [], c_prefix = [], c_duration = Fin (pow2 (- 1074))\<rparr> = NaN"
    by (simp add: Counter_step_size_def fl_underflow)
  have t: "c_timers (Counter_after \<lparr>c_end = Fin 0, c_suffix = [], c_prefix = [],
            c_duration = Fin (pow2 (- 1074))\<rparr> n) \<noteq> []" for n
    by (cases n)
       (simp_all add: Counter_after_NaN[OF s] Counter_running_def Counter_after_0
          Counter_visible_running)
  show ?thesis
    using pow2_pos[of "- 1074"] t by (simp add: Counter_after_NaN[OF s] Counter_running_def)
qed

text \<open>
  Nor is it reached for a long duration. With \<open>end = 1\<close> and the duration \<open>2 ^ 60\<close> the
  step is \<open>2 ^ -56\<close>; \<^verbatim>\<open>start\<close> grows to \<open>2 ^ -3\<close> and stays there, as
  \<open>2 ^ -3 + 2 ^ -56\<close> rounds to \<open>2 ^ -3\<close>. The displayed value is 0 at every tick and the
  interval is never cleared.
\<close>

lemma rnd_int_small: "M < 2 ^ 53 \<Longrightarrow> rnd_int M = M"
proof -
  assume "M < 2 ^ 53"
  then have "bitlen M \<le> 53" using bitlen_le_iff_power[of M 53] by simp
  then show ?thesis by (simp add: rnd_int_def)
qed

lemma rnd_int_2_53: "rnd_int (2 ^ 53) = 2 ^ 53" "rnd_int (2 ^ 53 + 1) = 2 ^ 53"
  by (simp_all add: int_eval)

lemma stall_start:
  "Counter_start (dy 1 (- 56)) k = dy (min (int k) (2 ^ 53)) (- 56)"
proof (induction k)
  case 0
  then show ?case by (simp add: dy_def)
next
  case (Suc k)
  define A where "A = min (int k) (2 ^ 53)"
  have A: "0 \<le> A" "A \<le> 2 ^ 53" by (simp_all add: A_def)
  have r: "rnd_int (A + 1) = min (int (Suc k)) (2 ^ 53)"
  proof (cases "int k < 2 ^ 53 - 1")
    case True
    then have "A + 1 < 2 ^ 53" by (simp add: A_def)
    from rnd_int_small[OF this] True show ?thesis by (simp add: A_def)
  next
    case False
    show ?thesis
    proof (cases "int k = 2 ^ 53 - 1")
      case True
      then show ?thesis using rnd_int_2_53(1) by (simp add: A_def)
    next
      case False
      with \<open>\<not> int k < 2 ^ 53 - 1\<close> have "2 ^ 53 \<le> int k" by simp
      then show ?thesis using rnd_int_2_53(2) by (simp add: A_def)
    qed
  qed
  have "rnd_int (A + 1) \<le> 2 ^ 53" by (simp add: r)
  also have "(2::int) ^ 53 < 2 ^ 1000" by simp
  finally have b: "rnd_int (A + 1) < 2 ^ 1000" .
  have "num_add (dy A (- 56)) (dy 1 (- 56)) = dy (rnd_int (A + 1)) (- 56)"
    using A(1) b by (intro num_add_dy) simp_all
  then show ?case using Suc r by (simp add: A_def)
qed

lemma Counter_stalls_aux:
  assumes "c_end p = Fin 1" "c_duration p = Fin (2 ^ 60)"
  shows "c_timers (Counter_after p n) \<noteq> [] \<and> c_count (Counter_after p n) = Fin 0"
proof -
  have d: "fl (2 ^ 56) = dy (2 ^ 52) 4"
    using fl_nearest[of 56 "2 ^ 56" "2 ^ 52"] by (simp add: pow2_eval)
  have s: "fl (1 / 2 ^ 56) = dy (2 ^ 52) (- 108)"
    using fl_nearest[of "- 56" "1 / 2 ^ 56" "2 ^ 52"] by (simp add: pow2_eval)
  have st: "Counter_step_size p = dy 1 (- 56)"
    using d s by (simp add: Counter_step_size_def assms dy_def pow2_eval)
  have en: "c_end p = dy (2 ^ 56) (- 56)" by (simp add: assms dy_def pow2_eval)
  have lt: "min (int j) (2 ^ 53) < 2 ^ 56" for j
  proof -
    have "min (int j) (2 ^ 53) \<le> 2 ^ 53" by simp
    also have "(2::int) ^ 53 < 2 ^ 56" by simp
    finally show ?thesis .
  qed
  have "\<forall>j. 1 \<le> j \<and> j \<le> n \<longrightarrow> \<not> num_ge (Counter_start (Counter_step_size p) j) (c_end p)"
    using lt by (simp add: st en stall_start num_ge_dy)
  from Counter_after_running[OF this]
  have run: "Counter_after p n =
    Counter_running p (dy (min (int n) (2 ^ 53)) (- 56)) (num_floor (dy (min (int n) (2 ^ 53)) (- 56))) n"
    by (simp add: st stall_start)
  have "0 \<le> of_int (min (int n) (2 ^ 53)) * pow2 (- 56)" using pow2_pos[of "- 56"] by simp
  moreover have "of_int (min (int n) (2 ^ 53)) * pow2 (- 56) < 1"
  proof -
    have "(of_int (min (int n) (2 ^ 53)) :: rat) < of_int (2 ^ 56)"
      using lt[of n] by (simp only: of_int_less_iff)
    then show ?thesis by (simp add: pow2_eval field_simps)
  qed
  ultimately have "\<lfloor>of_int (min (int n) (2 ^ 53)) * pow2 (- 56)\<rfloor> = 0"
    by (simp add: floor_eq_iff)
  then have "num_floor (dy (min (int n) (2 ^ 53)) (- 56)) = Fin 0" by (simp add: dy_def)
  then show ?thesis using run by (simp add: Counter_running_def)
qed

lemma Counter_stalls:
  "c_timers (Counter_after \<lparr>c_end = Fin 1, c_suffix = [], c_prefix = [], c_duration = Fin (2 ^ 60)\<rparr> n) \<noteq> [] \<and>
   c_count (Counter_after \<lparr>c_end = Fin 1, c_suffix = [], c_prefix = [], c_duration = Fin (2 ^ 60)\<rparr> n) = Fin 0"
  by (rule Counter_stalls_aux) simp_all

text \<open>
  With \<open>end = 0\<close> and \<open>duration = 0\<close> the step is \<^verbatim>\<open>0 / 0\<close>: the divisor is zero, the
  displayed value becomes NaN at the first tick and the interval is never cleared.
\<close>

theorem Counter_degenerate_counterexample:
  "num_div (c_duration \<lparr>c_end = Fin 0, c_suffix = [], c_prefix = [], c_duration = Fin 0\<rparr>) (Fin 16) = Fin 0 \<and>
   Counter_step_size \<lparr>c_end = Fin 0, c_suffix = [], c_prefix = [], c_duration = Fin 0\<rparr> = NaN \<and>
   c_count (Counter_after \<lparr>c_end = Fin 0, c_suffix = [], c_prefix = [], c_duration = Fin 0\<rparr> 1) = NaN \<and>
   \<not> (\<exists>n. c_timers (Counter_after \<lparr>c_end = Fin 0, c_suffix = [], c_prefix = [], c_duration = Fin 0\<rparr> n) = [])"
proof -
  have s: "Counter_step_size \<lparr>c_end = Fin 0, c_suffix = [], c_prefix = [], c_duration = Fin 0\<rparr> = NaN"
    by (simp add: Counter_step_size_def fl_zero)
  have t: "c_timers (Counter_after \<lparr>c_end = Fin 0, c_suffix = [], c_prefix = [], c_duration = Fin 0\<rparr> n) \<noteq> []"
    for n
    by (cases n)
       (simp_all add: Counter_after_NaN[OF s] Counter_running_def Counter_after_0
          Counter_visible_running)
  show ?thesis
    using t by (simp add: Counter_after_NaN[OF s] Counter_running_def s fl_zero)
qed


lemma fl_nonzero:
  assumes "pow2 (- 1022) \<le> \<bar>x\<bar>"
  shows "fl x \<noteq> Fin 0 \<and> fl x \<noteq> NegZero \<and> fl x \<noteq> NaN"
  using rnd_nonzero[OF assms] by (simp add: fl_def Let_def)

lemma num_div_zero:
  "y \<noteq> Fin 0 \<Longrightarrow> y \<noteq> NegZero \<Longrightarrow> y \<noteq> NaN \<Longrightarrow>
   num_div (Fin 0) y = Fin 0 \<or> num_div (Fin 0) y = NegZero"
  by (cases y) simp_all

lemma num_add_zero: "x = Fin 0 \<or> x = NegZero \<Longrightarrow> num_add (Fin 0) x = Fin 0"
  by (auto simp add: fl_zero)

lemma Counter_first_tick:
  assumes "num_ge (num_add (Fin 0) (Counter_step_size p)) (c_end p)" "1 \<le> n"
  shows "Counter_after p n = Counter_done p 1"
proof -
  have a: "\<forall>j. 1 \<le> j \<and> j \<le> (0::nat) \<longrightarrow>
            \<not> num_ge (Counter_start (Counter_step_size p) j) (c_end p)" by simp
  have b: "num_ge (Counter_start (Counter_step_size p) (Suc 0)) (c_end p)"
    using assms(1) by simp
  from Counter_after_done[OF a b, of n] assms(2) show ?thesis by simp
qed

text \<open>
  The two zeros are told apart by the division. With \<open>end > 0\<close> and the duration
  \<open>-0\<close> the divisor \<^verbatim>\<open>duration / 16\<close> is \<open>-0\<close> and the step is \<^verbatim>\<open>end / -0 = -Infinity\<close>:
  \<^verbatim>\<open>start >= end\<close> never holds, every tick displays \<open>-Infinity\<close> and the interval is
  never cleared.
\<close>

lemma Counter_start_NegInf: "1 \<le> j \<Longrightarrow> Counter_start NegInf j = NegInf"
proof (induction j)
  case 0
  then show ?case by simp
next
  case (Suc j)
  then show ?case by (cases j) simp_all
qed

lemma Counter_negative_zero_duration:
  assumes "c_end p = Fin E" "0 < E" "c_duration p = NegZero"
  shows "num_div (c_duration p) (Fin 16) = NegZero"
    and "Counter_step_size p = NegInf"
    and "1 \<le> n \<Longrightarrow> Counter_after p n = Counter_running p NegInf NegInf n"
proof -
  show "num_div (c_duration p) (Fin 16) = NegZero" using assms by simp
  show s: "Counter_step_size p = NegInf" using assms by (simp add: Counter_step_size_def)
  assume n: "1 \<le> n"
  have "\<forall>j. 1 \<le> j \<and> j \<le> n \<longrightarrow> \<not> num_ge (Counter_start (Counter_step_size p) j) (c_end p)"
    by (simp add: s assms(1) Counter_start_NegInf)
  from Counter_after_running[OF this] n
  show "Counter_after p n = Counter_running p NegInf NegInf n"
    by (simp add: s Counter_start_NegInf)
qed

lemma Counter_negative_zero_100:
  "Counter_step_size \<lparr>c_end = Fin 100, c_suffix = [], c_prefix = [], c_duration = NegZero\<rparr> = NegInf \<and>
   c_count (Counter_after \<lparr>c_end = Fin 100, c_suffix = [], c_prefix = [], c_duration = NegZero\<rparr> (Suc n)) = NegInf \<and>
   c_timers (Counter_after \<lparr>c_end = Fin 100, c_suffix = [], c_prefix = [], c_duration = NegZero\<rparr> (Suc n)) \<noteq> []"
  using Counter_negative_zero_duration(2)
      [of "\<lparr>c_end = Fin 100, c_suffix = [], c_prefix = [], c_duration = NegZero\<rparr>" 100]
    Counter_negative_zero_duration(3)
      [of "\<lparr>c_end = Fin 100, c_suffix = [], c_prefix = [], c_duration = NegZero\<rparr>" 100 "Suc n"]
  by (simp add: Counter_running_def)

text \<open>
  Claim C2, amended. With \<open>end = 0\<close> (the positive zero) and a duration whose
  sixteenth, as the code computes it, is neither a zero nor NaN, the step is a zero,
  the displayed value is 0 from the mount on, and the first tick clears the interval.
  The sixteenth of every finite duration of absolute value at least \<open>2 ^ -1018\<close> is
  neither a zero nor NaN. With the duration \<open>+0\<close> and \<open>end > 0\<close> the divisor is zero and
  the step is \<^verbatim>\<open>end / 0 = Infinity\<close>; the first tick displays \<open>end\<close> and clears the
  interval.
\<close>

theorem Counter_degenerate:
  "(c_end p = Fin 0 \<and> num_div (c_duration p) (Fin 16) \<noteq> Fin 0 \<and>
    num_div (c_duration p) (Fin 16) \<noteq> NegZero \<and> num_div (c_duration p) (Fin 16) \<noteq> NaN \<longrightarrow>
      (Counter_step_size p = Fin 0 \<or> Counter_step_size p = NegZero) \<and>
      c_count (Counter p) = Fin 0 \<and> c_count (Counter_after p 0) = Fin 0 \<and>
      (\<forall>n. 1 \<le> n \<longrightarrow> c_count (Counter_after p n) = Fin 0 \<and>
         c_timers (Counter_after p n) = [] \<and> c_ticks (Counter_after p n) = 1)) \<and>
   (c_duration p = Fin d \<and> pow2 (- 1018) \<le> \<bar>d\<bar> \<longrightarrow>
      num_div (c_duration p) (Fin 16) \<noteq> Fin 0 \<and>
      num_div (c_duration p) (Fin 16) \<noteq> NegZero \<and> num_div (c_duration p) (Fin 16) \<noteq> NaN) \<and>
   (c_end p = Fin E \<and> 0 < E \<and> c_duration p = Fin 0 \<longrightarrow>
      num_div (c_duration p) (Fin 16) = Fin 0 \<and> Counter_step_size p = PosInf \<and>
      (\<forall>n. 1 \<le> n \<longrightarrow> c_count (Counter_after p n) = c_end p \<and>
         c_timers (Counter_after p n) = [] \<and> c_ticks (Counter_after p n) = 1))"
proof (intro conjI impI)
  assume h: "c_end p = Fin 0 \<and> num_div (c_duration p) (Fin 16) \<noteq> Fin 0 \<and>
    num_div (c_duration p) (Fin 16) \<noteq> NegZero \<and> num_div (c_duration p) (Fin 16) \<noteq> NaN"
  show s: "Counter_step_size p = Fin 0 \<or> Counter_step_size p = NegZero"
    using h num_div_zero[of "num_div (c_duration p) (Fin 16)"]
    by (simp add: Counter_step_size_def)
  show "c_count (Counter p) = Fin 0" by (simp add: Counter_def Counter_effect_def)
  show "c_count (Counter_after p 0) = Fin 0"
    by (simp add: Counter_after_0 Counter_visible_running Counter_running_def)
  have "num_ge (num_add (Fin 0) (Counter_step_size p)) (c_end p)"
    using h num_add_zero[OF s] by simp
  from Counter_first_tick[OF this]
  show "\<forall>n. 1 \<le> n \<longrightarrow> c_count (Counter_after p n) = Fin 0 \<and>
         c_timers (Counter_after p n) = [] \<and> c_ticks (Counter_after p n) = 1"
    using h by (simp add: Counter_done_def)
next
  assume h: "c_duration p = Fin d \<and> pow2 (- 1018) \<le> \<bar>d\<bar>"
  have "pow2 (- 1018) = pow2 (- 1022) * pow2 4" using pow2_add[of "- 1022" 4] by simp
  then have "pow2 (- 1022) \<le> \<bar>d / 16\<bar>" using h by (simp add: pow2_numeral)
  from fl_nonzero[OF this] have nz: "fl (d / 16) \<noteq> Fin 0" "fl (d / 16) \<noteq> NegZero"
    "fl (d / 16) \<noteq> NaN" by simp_all
  have "d \<noteq> 0" using h pow2_pos[of "- 1018"] by auto
  then have "num_div (c_duration p) (Fin 16) = fl (d / 16)" using h by simp
  then show "num_div (c_duration p) (Fin 16) \<noteq> Fin 0"
    "num_div (c_duration p) (Fin 16) \<noteq> NegZero" "num_div (c_duration p) (Fin 16) \<noteq> NaN"
    using nz by simp_all
next
  assume h: "c_end p = Fin E \<and> 0 < E \<and> c_duration p = Fin 0"
  show "num_div (c_duration p) (Fin 16) = Fin 0" using h by simp
  show s: "Counter_step_size p = PosInf" using h by (simp add: Counter_step_size_def)
  have "num_ge (num_add (Fin 0) (Counter_step_size p)) (c_end p)" using h by (simp add: s)
  from Counter_first_tick[OF this]
  show "\<forall>n. 1 \<le> n \<longrightarrow> c_count (Counter_after p n) = c_end p \<and>
         c_timers (Counter_after p n) = [] \<and> c_ticks (Counter_after p n) = 1"
    by (simp add: Counter_done_def)
qed

theorem Counter_degenerate_witness:
  "c_end (Counter_props (Fin 0)) = Fin 0 \<and> c_duration (Counter_props (Fin 0)) = Fin 2000 \<and>
   pow2 (- 1018) \<le> \<bar>2000\<bar> \<and>
   num_div (c_duration (Counter_props (Fin 0))) (Fin 16) \<noteq> Fin 0 \<and>
   num_div (c_duration (Counter_props (Fin 0))) (Fin 16) \<noteq> NegZero \<and>
   num_div (c_duration (Counter_props (Fin 0))) (Fin 16) \<noteq> NaN \<and>
   (Counter_step_size (Counter_props (Fin 0)) = Fin 0 \<or>
    Counter_step_size (Counter_props (Fin 0)) = NegZero) \<and>
   c_count (Counter_after (Counter_props (Fin 0)) 1) = Fin 0 \<and>
   c_timers (Counter_after (Counter_props (Fin 0)) 1) = [] \<and>
   c_end \<lparr>c_end = Fin 100, c_suffix = [], c_prefix = [], c_duration = Fin 0\<rparr> = Fin 100 \<and>
   (0::rat) < 100 \<and>
   c_duration \<lparr>c_end = Fin 100, c_suffix = [], c_prefix = [], c_duration = Fin 0\<rparr> = Fin 0 \<and>
   Counter_step_size \<lparr>c_end = Fin 100, c_suffix = [], c_prefix = [], c_duration = Fin 0\<rparr> = PosInf \<and>
   c_count (Counter_after \<lparr>c_end = Fin 100, c_suffix = [], c_prefix = [], c_duration = Fin 0\<rparr> 1) = Fin 100 \<and>
   c_timers (Counter_after \<lparr>c_end = Fin 100, c_suffix = [], c_prefix = [], c_duration = Fin 0\<rparr> 1) = []"
proof -
  have "pow2 (- 1018) \<le> pow2 0" by (rule pow2_mono) simp
  then have b: "pow2 (- 1018) \<le> \<bar>2000\<bar>" by (simp add: pow2_def)
  have h1: "c_end (Counter_props (Fin 0)) = Fin 0"
    "c_duration (Counter_props (Fin 0)) = Fin 2000 \<and> pow2 (- 1018) \<le> \<bar>2000\<bar>"
    using b by (simp_all add: Counter_props_def)
  have h2: "c_end \<lparr>c_end = Fin 100, c_suffix = [], c_prefix = [], c_duration = Fin 0\<rparr> = Fin 100 \<and>
    (0::rat) < 100 \<and>
    c_duration \<lparr>c_end = Fin 100, c_suffix = [], c_prefix = [], c_duration = Fin 0\<rparr> = Fin 0"
    by simp
  from Counter_degenerate[of "Counter_props (Fin 0)" 2000 0] h1
  have c0: "num_div (c_duration (Counter_props (Fin 0))) (Fin 16) \<noteq> Fin 0 \<and>
    num_div (c_duration (Counter_props (Fin 0))) (Fin 16) \<noteq> NegZero \<and>
    num_div (c_duration (Counter_props (Fin 0))) (Fin 16) \<noteq> NaN" by blast
  from Counter_degenerate[of "Counter_props (Fin 0)" 2000 0] h1(1) c0
  have c1: "(Counter_step_size (Counter_props (Fin 0)) = Fin 0 \<or>
      Counter_step_size (Counter_props (Fin 0)) = NegZero) \<and>
    c_count (Counter_after (Counter_props (Fin 0)) 1) = Fin 0 \<and>
    c_timers (Counter_after (Counter_props (Fin 0)) 1) = []" by simp
  from Counter_degenerate[of "\<lparr>c_end = Fin 100, c_suffix = [], c_prefix = [], c_duration = Fin 0\<rparr>" 0 100] h2
  have c2: "Counter_step_size \<lparr>c_end = Fin 100, c_suffix = [], c_prefix = [], c_duration = Fin 0\<rparr> = PosInf \<and>
    c_count (Counter_after \<lparr>c_end = Fin 100, c_suffix = [], c_prefix = [], c_duration = Fin 0\<rparr> 1) = Fin 100 \<and>
    c_timers (Counter_after \<lparr>c_end = Fin 100, c_suffix = [], c_prefix = [], c_duration = Fin 0\<rparr> 1) = []"
    by simp
  from h1 h2 c0 c1 c2 show ?thesis by blast
qed

end
